theory Spec2Isabelle
  imports Main "HOL-Library.Sublist" "HOL-Library.AList"
begin

section \<open>rpc-tester: a shallow embedding of src/index.js\<close>

text \<open>
  The program fetches a directory of chains, probes every candidate RPC endpoint of every
  chain (connectivity, \<open>eth_blockNumber\<close>, IPv6) through a worker pool, and writes one
  JSON file per chain and a merged file. The embedding follows the source function by
  function and keeps its names. What the JavaScript run time supplies (the network,
  the URL parser, \<open>JSON.parse\<close>, \<open>JSON.stringify\<close>, \<open>path.join\<close>) is a field of the
  record \<open>env\<close>, so every theorem holds for every behaviour of those parts.
  Console output is not modelled, except for the one sub-expression of a log line that
  can throw.
\<close>

subsection \<open>Constants\<close>

definition CONNECT_TIMEOUT_MS :: nat where
  "CONNECT_TIMEOUT_MS = 3000"

definition RPC_TIMEOUT_MS :: nat where
  "RPC_TIMEOUT_MS = 10000"

text \<open>The literal 5000 of \<open>checkIpv6\<close>.\<close>

definition DNS_TIMEOUT_MS :: nat where
  "DNS_TIMEOUT_MS = 5000"

definition BATCH_SIZE :: int where
  "BATCH_SIZE = 16"

subsection \<open>Strings: the built-ins the argument parser uses\<close>

text \<open>
  \<open>s.startsWith(p)\<close>, \<open>s.split(c)\<close> for a one-character separator, and
  \<open>parseInt(s, 10)\<close>: skip leading white space, read an optional sign, then the longest
  run of decimal digits; no digit gives \<open>NaN\<close>, which is \<open>None\<close> here. Characters are
  bytes, so only the ASCII white space of ECMAScript is skipped. \<open>parseInt\<close> returns a
  double; the model returns the exact integer, which agrees with it on the sign and on
  the comparison with 1 and with 128, the only uses the program makes of the value.
\<close>

definition startsWith :: "string \<Rightarrow> string \<Rightarrow> bool" where
  "startsWith s p = (take (length p) s = p)"

fun split :: "char \<Rightarrow> string \<Rightarrow> string list" where
  "split c [] = [[]]"
| "split c (x # xs) =
     (if x = c then [] # split c xs
      else (case split c xs of [] \<Rightarrow> [[x]] | y # ys \<Rightarrow> (x # y) # ys))"

definition is_space :: "char \<Rightarrow> bool" where
  "is_space c = (c = CHR '' '' \<or> c = CHR 0x09 \<or> c = CHR 0x0A \<or> c = CHR 0x0B
                 \<or> c = CHR 0x0C \<or> c = CHR 0x0D)"

definition digit_value :: "char \<Rightarrow> nat option" where
  "digit_value = map_of (zip ''0123456789'' [0, 1, 2, 3, 4, 5, 6, 7, 8, 9])"

definition is_digit :: "char \<Rightarrow> bool" where
  "is_digit c = (digit_value c \<noteq> None)"

definition digits_value :: "string \<Rightarrow> nat" where
  "digits_value ds = foldl (\<lambda>n c. 10 * n + the (digit_value c)) 0 ds"

definition parseInt :: "string \<Rightarrow> int option" where
  "parseInt s =
     (let t = dropWhile is_space s;
          neg = (t \<noteq> [] \<and> hd t = CHR ''-'');
          u = (if t \<noteq> [] \<and> (hd t = CHR ''-'' \<or> hd t = CHR ''+'') then tl t else t);
          ds = takeWhile is_digit u
      in if ds = [] then None
         else Some (if neg then - int (digits_value ds) else int (digits_value ds)))"

subsection \<open>parseArgs\<close>

text \<open>
  \<open>parseArgs\<close> reads \<open>process.argv\<close>. The fields that the probing engine uses are
  modelled: \<open>outDir\<close>, \<open>skipExisting\<close> and \<open>batchSize\<close>. The allow-list \<open>chainIds\<close>
  only selects which chains the main loop iterates over; the loop below is given the
  selected list.

  \<open>batchArg.split("=")[1]\<close> is the text between the first and the second \<open>=\<close>; it exists
  because \<open>batchArg\<close> starts with \<open>--batch=\<close>. The second component of a split with fewer
  than two parts would be \<open>undefined\<close>, which \<open>parseInt\<close> turns into \<open>NaN\<close>. For \<open>--out=\<close>
  the same holds; the case that cannot arise is given the empty string.
\<close>

definition split_eq_1 :: "string \<Rightarrow> string option" where
  "split_eq_1 a = (case split (CHR ''='') a of _ # b # _ \<Rightarrow> Some b | _ \<Rightarrow> None)"

definition parseInt_arg :: "string \<Rightarrow> int option" where
  "parseInt_arg a = (case split_eq_1 a of None \<Rightarrow> None | Some v \<Rightarrow> parseInt v)"

record args =
  outDir :: string
  skipExisting :: bool
  batchSize :: int

definition batchArg :: "string list \<Rightarrow> string option" where
  "batchArg argv = find (\<lambda>a. startsWith a ''--batch='') argv"

text \<open>
  \<open>batch\<close> is \<open>None\<close> for \<open>NaN\<close>. Line 47:
  \<open>Number.isNaN(batch) || batch < 1 ? BATCH_SIZE : Math.min(batch, 128)\<close>.
\<close>

definition batch_of :: "string list \<Rightarrow> int option" where
  "batch_of argv = (case batchArg argv of None \<Rightarrow> Some BATCH_SIZE | Some a \<Rightarrow> parseInt_arg a)"

definition batchSize_of :: "int option \<Rightarrow> int" where
  "batchSize_of batch =
     (case batch of None \<Rightarrow> BATCH_SIZE
      | Some b \<Rightarrow> if b < 1 then BATCH_SIZE else min b 128)"

definition parseArgs :: "string list \<Rightarrow> args" where
  "parseArgs argv =
     \<lparr> outDir = (case find (\<lambda>a. startsWith a ''--out='') argv of
                   None \<Rightarrow> ''./rpcs''
                 | Some out \<Rightarrow> (case split_eq_1 out of None \<Rightarrow> '''' | Some d \<Rightarrow> d)),
       skipExisting = (''--skip-existing'' \<in> set argv),
       batchSize = batchSize_of (batch_of argv) \<rparr>"

text \<open>The spec's words for the batch argument: a value clamped to the interval [1, 128].\<close>

definition clamp_1_128 :: "int \<Rightarrow> int" where
  "clamp_1_128 n = max 1 (min n 128)"

subsection \<open>JSON data and the hex pattern\<close>

text \<open>
  A parsed JSON document. Only whether a number is a string matters to the program, so
  numbers are integers. An object is the list of its members in the order of the text;
  of two members with one key the later one counts, as in \<open>JSON.parse\<close>.
\<close>

datatype json = JNull | JBool bool | JNum int | JStr string | JArr "json list"
  | JObj "(string \<times> json) list"

text \<open>
  \<open>data?.result\<close>: \<open>undefined\<close> (\<open>None\<close>) for \<open>null\<close>, and for every value that has no
  property \<open>result\<close> (a string, a number, a boolean and an array have none).
\<close>

definition result_of :: "json \<Rightarrow> json option" where
  "result_of data = (case data of JObj kvs \<Rightarrow> map_of (rev kvs) ''result'' | _ \<Rightarrow> None)"

text \<open>A character range \<open>lo-hi\<close> of a character class: the codes from \<open>lo\<close> to \<open>hi\<close>.\<close>

definition in_range :: "char \<Rightarrow> char \<Rightarrow> char \<Rightarrow> bool" where
  "in_range lo hi c = ((of_char lo :: nat) \<le> of_char c \<and> (of_char c :: nat) \<le> of_char hi)"

text \<open>The class \<open>[0-9a-fA-F]\<close>.\<close>

definition is_hex_digit :: "char \<Rightarrow> bool" where
  "is_hex_digit c =
     (in_range (CHR ''0'') (CHR ''9'') c \<or> in_range (CHR ''a'') (CHR ''f'') c
      \<or> in_range (CHR ''A'') (CHR ''F'') c)"

text \<open>
  \<open>HEX_RESULT.test(s)\<close> for \<open>HEX_RESULT = /^0x[0-9a-fA-F]+$/\<close>. The pattern has no flag, so
  \<open>^\<close> and \<open>$\<close> are the two ends of the string.
\<close>

definition HEX_RESULT_test :: "string \<Rightarrow> bool" where
  "HEX_RESULT_test s =
     (case s of
        c0 # c1 # ds \<Rightarrow> c0 = CHR ''0'' \<and> c1 = CHR ''x'' \<and> ds \<noteq> [] \<and> list_all is_hex_digit ds
      | _ \<Rightarrow> False)"

subsection \<open>Errors, chains and results\<close>

datatype js_error = TypeError string | SyntaxError string | Error string

text \<open>
  A candidate URL, as \<open>getRpcs\<close> hands it on: a string, or \<open>undefined\<close> (\<open>None\<close>) for an
  object entry that has no \<open>url\<close> field. The chain directory is taken in the shape the
  program expects: an entry is a string or an object whose \<open>url\<close>, when present, is a
  string; a chain identifier is a number or a string; a name is a string; each may be
  missing.
\<close>

type_synonym url = "string option"

datatype entry = EntryString string | EntryObject "string option"

datatype chain_id = IdNum int | IdStr string

record chain =
  c_name :: "string option"
  c_chainId :: "chain_id option"
  c_rpc :: "entry list option"

text \<open>The object \<open>{ url, supportsIpv6 }\<close> of a working endpoint.\<close>

record rpc_result =
  r_url :: url
  supportsIpv6 :: bool

text \<open>The object \<open>{ name, chainId, rpcs }\<close> written for a chain.\<close>

record payload =
  p_name :: string
  p_chainId :: chain_id
  p_rpcs :: "rpc_result list"

text \<open>
  A value of the merged object: the parsed content of an existing file, or the
  payload built in this run.
\<close>

datatype chain_result = Existing json | Built payload

subsection \<open>The run time: network, parsers, printers\<close>

text \<open>
  A network operation answers after some milliseconds, with a failure or a value.
\<close>

datatype 'a reply = Fails nat | Replies nat 'a

datatype meth = GET | POST

text \<open>
  \<open>http\<close> is the network behind \<open>fetch\<close> (for \<open>POST\<close> the reply carries the whole
  response body, which \<open>res.json()\<close> reads), \<open>dnsResolve\<close> the AAAA lookup,
  \<open>URL_hostname u\<close> is \<open>new URL(u).hostname\<close>, \<open>None\<close> when the constructor throws.
\<close>

record env =
  http :: "meth \<Rightarrow> string \<Rightarrow> string reply"
  dnsResolve :: "string \<Rightarrow> string list reply"
  URL_hostname :: "string \<Rightarrow> string option"
  JSON_parse :: "string \<Rightarrow> json option"
  JSON_stringify :: "payload \<Rightarrow> string"
  JSON_stringify_merged :: "(string \<times> chain_result) list \<Rightarrow> string"
  path_join :: "string \<Rightarrow> string \<Rightarrow> string"

text \<open>The calls a probe makes to the network, in the order it makes them.\<close>

datatype net_call = Fetch meth url | Resolve string

text \<open>
  An asynchronous check returns its value, the network calls it made and the time it
  took.
\<close>

type_synonym 'a io = "'a \<times> net_call list \<times> nat"

text \<open>
  A deadline on an operation (\<open>AbortSignal.timeout\<close>, or the race against
  \<open>setTimeout\<close>): an answer that is there before the deadline counts, otherwise the
  operation fails at the deadline.
\<close>

definition within :: "nat \<Rightarrow> 'a reply \<Rightarrow> 'a reply" where
  "within deadline r =
     (case r of
        Fails ms \<Rightarrow> Fails (min ms deadline)
      | Replies ms x \<Rightarrow> if ms < deadline then Replies ms x else Fails deadline)"

text \<open>
  \<open>fetch(url, { signal: AbortSignal.timeout(t) })\<close>. \<open>fetch(undefined)\<close> rejects at once:
  the text \<open>undefined\<close> is not an absolute URL.
\<close>

definition fetch :: "env \<Rightarrow> meth \<Rightarrow> url \<Rightarrow> nat \<Rightarrow> string reply" where
  "fetch e m url deadline =
     (case url of None \<Rightarrow> Fails 0 | Some u \<Rightarrow> within deadline (http e m u))"

subsection \<open>The three checks and the probe\<close>

definition extractHost :: "env \<Rightarrow> url \<Rightarrow> string" where
  "extractHost e url =
     (case url of
        None \<Rightarrow> []
      | Some u \<Rightarrow> (case URL_hostname e u of None \<Rightarrow> [] | Some h \<Rightarrow> h))"

definition checkConnect :: "env \<Rightarrow> url \<Rightarrow> bool io" where
  "checkConnect e url =
     (case fetch e GET url CONNECT_TIMEOUT_MS of
        Fails ms \<Rightarrow> (False, [Fetch GET url], ms)
      | Replies ms _ \<Rightarrow> (True, [Fetch GET url], ms))"

text \<open>
  The request body of \<open>checkRpc\<close> is the constant \<open>eth_blockNumber\<close> call; it is not
  part of the log. Every exception inside the \<open>try\<close> (a rejected fetch, a body that
  is not JSON) gives \<open>false\<close>.
\<close>

definition checkRpc :: "env \<Rightarrow> url \<Rightarrow> bool io" where
  "checkRpc e url =
     (case fetch e POST url RPC_TIMEOUT_MS of
        Fails ms \<Rightarrow> (False, [Fetch POST url], ms)
      | Replies ms body \<Rightarrow>
          (case JSON_parse e body of
             None \<Rightarrow> (False, [Fetch POST url], ms)
           | Some data \<Rightarrow>
               (case result_of data of
                  Some (JStr s) \<Rightarrow> (HEX_RESULT_test s, [Fetch POST url], ms)
                | _ \<Rightarrow> (False, [Fetch POST url], ms))))"

text \<open>\<open>if (!host) return false\<close>: the empty host is the only falsy string.\<close>

definition checkIpv6 :: "env \<Rightarrow> string \<Rightarrow> bool io" where
  "checkIpv6 e host =
     (if host = [] then (False, [], 0)
      else (case within DNS_TIMEOUT_MS (dnsResolve e host) of
              Fails ms \<Rightarrow> (False, [Resolve host], ms)
            | Replies ms aaaa \<Rightarrow> (aaaa \<noteq> [], [Resolve host], ms)))"

text \<open>
  The body of the task that \<open>main\<close> builds for a URL (lines 188 to 196). \<open>None\<close> is
  \<open>null\<close>.
\<close>

definition taskFn :: "env \<Rightarrow> url \<Rightarrow> rpc_result option io" where
  "taskFn e url =
     (let (connected, c1, t1) = checkConnect e url in
      if \<not> connected then (None, c1, t1)
      else
        let (rpcOk, c2, t2) = checkRpc e url in
        if \<not> rpcOk then (None, c1 @ c2, t1 + t2)
        else
          let host = extractHost e url;
              (v6, c3, t3) = checkIpv6 e host
          in (Some \<lparr> r_url = url, supportsIpv6 = v6 \<rparr>, c1 @ c2 @ c3, t1 + t2 + t3))"

subsection \<open>Promises and tasks\<close>

text \<open>
  Time is counted in instants from the call of \<open>batchCall\<close>. A promise settles at some
  instant, fulfilled with a value or rejected with an error; it is pending at every
  earlier instant.
\<close>

datatype 'a outcome = Fulfilled 'a | Rejected js_error

record 'a promise =
  settles_at :: nat
  outcome :: "'a outcome"

text \<open>
  A task is a function of no argument. Calling it either throws at once, or returns a
  promise that settles some instants later. An \<open>async\<close> function never throws at the
  call; a plain function that returns a promise may.
\<close>

datatype 'a task = Throws js_error | Settles nat "'a outcome"

text \<open>The promise that a call of the task returns, if it returns.\<close>

definition promise_of :: "'a task \<Rightarrow> 'a promise option" where
  "promise_of t =
     (case t of
        Throws e \<Rightarrow> None
      | Settles d out \<Rightarrow> Some \<lparr> settles_at = d, outcome = out \<rparr>)"

text \<open>
  \<open>Promise.all\<close>: fulfilled with all the values, in the order of the array, once the
  last promise is fulfilled; rejected with the error of the promise that rejects first.
  Of two promises that reject at one instant the model takes the one of lower index.
\<close>

fun Promise_all :: "'a promise list \<Rightarrow> 'a list promise" where
  "Promise_all [] = \<lparr> settles_at = 0, outcome = Fulfilled [] \<rparr>"
| "Promise_all (p # ps) =
     (let r = Promise_all ps in
      case outcome p of
        Fulfilled v \<Rightarrow>
          (case outcome r of
             Fulfilled vs \<Rightarrow>
               \<lparr> settles_at = max (settles_at p) (settles_at r), outcome = Fulfilled (v # vs) \<rparr>
           | Rejected e \<Rightarrow> r)
      | Rejected e \<Rightarrow>
          (case outcome r of
             Fulfilled vs \<Rightarrow> \<lparr> settles_at = settles_at p, outcome = Rejected e \<rparr>
           | Rejected e' \<Rightarrow>
               if settles_at p \<le> settles_at r
               then \<lparr> settles_at = settles_at p, outcome = Rejected e \<rparr> else r))"

subsection \<open>batchCall\<close>

text \<open>
  The variables that the workers of one \<open>batchCall\<close> share: the cursor \<open>index\<close> and the
  array \<open>results\<close> (\<open>None\<close> is a hole of the array). \<open>started\<close> is not in the source: it
  records, in order, the index of every task that was called.
\<close>

record 'a sched =
  index :: nat
  results :: "'a promise option list"
  started :: "nat list"

text \<open>\<open>results[i] = v\<close>: an assignment beyond the end extends the array with holes.\<close>

definition assign :: "'b option list \<Rightarrow> nat \<Rightarrow> 'b \<Rightarrow> 'b option list" where
  "assign xs i v =
     (if i < length xs then xs[i := Some v]
      else xs @ replicate (i - length xs) None @ [Some v])"

text \<open>\<open>xs[i]\<close>: \<open>undefined\<close> for a hole and beyond the end.\<close>

definition at_index :: "'b option list \<Rightarrow> nat \<Rightarrow> 'b option" where
  "at_index xs i = (if i < length xs then xs ! i else None)"

text \<open>
  One call of \<open>worker()\<close>. The body of the loop is \<open>const i = index++\<close> and
  \<open>results[i] = tasks[i]()\<close>: the promise that the task returns is stored, and the loop
  goes on to the next index. There is no \<open>await\<close> in the loop, so the call of \<open>worker()\<close>
  runs the whole loop before it returns, at the instant of the call; what it returns is
  the settled state of the worker's own promise. A task that throws ends the worker,
  whose promise is then rejected; the cursor has moved on by then.
\<close>

function worker :: "'a task list \<Rightarrow> 'a sched \<Rightarrow> unit outcome \<times> 'a sched" where
  "worker tasks s =
     (if index s < length tasks then
        (let i = index s;
             s1 = s\<lparr> index := Suc i, started := started s @ [i] \<rparr>
         in case tasks ! i of
              Throws e \<Rightarrow> (Rejected e, s1)
            | Settles d out \<Rightarrow>
                worker tasks
                  (s1\<lparr> results := assign (results s1) i \<lparr> settles_at = d, outcome = out \<rparr> \<rparr>))
      else (Fulfilled (), s))"
  by pat_completeness auto
termination
  by (relation "measure (\<lambda>(tasks, s). length tasks - index s)") auto

declare worker.simps [simp del]

text \<open>\<open>Array.from({ length: n }, () => worker())\<close>: \<open>n\<close> calls of \<open>worker\<close>, one after the other.\<close>

fun spawn :: "nat \<Rightarrow> 'a task list \<Rightarrow> 'a sched \<Rightarrow> unit outcome list \<times> 'a sched" where
  "spawn 0 tasks s = ([], s)"
| "spawn (Suc n) tasks s =
     (let (w, s1) = worker tasks s;
          (ws, s2) = spawn n tasks s1
      in (w # ws, s2))"

text \<open>
  The first two statements and the creation of the workers. The length
  \<open>Math.min(concurrency, tasks.length)\<close> of the array is read as an array length:
  a negative number gives no worker.
\<close>

definition batchCall_workers :: "'a task list \<Rightarrow> int \<Rightarrow> unit outcome list \<times> 'a sched" where
  "batchCall_workers tasks concurrency =
     spawn (nat (min concurrency (int (length tasks)))) tasks
       \<lparr> index = 0, results = [], started = [] \<rparr>"

text \<open>A worker's promise: settled when \<open>worker()\<close> returns.\<close>

definition settled_now :: "'b outcome \<Rightarrow> 'b promise" where
  "settled_now out = \<lparr> settles_at = 0, outcome = out \<rparr>"

text \<open>
  An element of \<open>results\<close> as \<open>Promise.all\<close> reads it: a hole is \<open>undefined\<close>, a value
  that is no promise and counts as fulfilled. The values of the final list are
  \<open>None\<close> for \<open>undefined\<close> and \<open>Some v\<close> for the value \<open>v\<close> of a task.
\<close>

definition element :: "'a promise option \<Rightarrow> 'a option promise" where
  "element x =
     (case x of
        None \<Rightarrow> \<lparr> settles_at = 0, outcome = Fulfilled None \<rparr>
      | Some p \<Rightarrow>
          \<lparr> settles_at = settles_at p,
            outcome = (case outcome p of Fulfilled v \<Rightarrow> Fulfilled (Some v)
                       | Rejected e \<Rightarrow> Rejected e) \<rparr>)"

text \<open>
  \<open>await Promise.all(workers)\<close> throws when a worker's promise is rejected, which
  rejects the promise of \<open>batchCall\<close>; otherwise \<open>batchCall\<close> returns
  \<open>Promise.all(results)\<close>. There is no \<open>try\<close> in \<open>batchCall\<close>.
\<close>

definition batchCall :: "'a task list \<Rightarrow> int \<Rightarrow> 'a option list promise" where
  "batchCall tasks concurrency =
     (let (workers, s) = batchCall_workers tasks concurrency;
          joined = Promise_all (map settled_now workers)
      in case outcome joined of
           Rejected e \<Rightarrow> \<lparr> settles_at = settles_at joined, outcome = Rejected e \<rparr>
         | Fulfilled _ \<Rightarrow> Promise_all (map element (results s)))"

text \<open>
  The tasks in flight at instant \<open>t\<close>: those that have been called and whose promise is
  still pending at \<open>t\<close>. Every call happens inside \<open>batchCall_workers\<close>, at instant 0.
\<close>

definition pending_at :: "nat \<Rightarrow> 'a promise option \<Rightarrow> bool" where
  "pending_at t x = (case x of None \<Rightarrow> False | Some p \<Rightarrow> t < settles_at p)"

definition in_flight :: "'a task list \<Rightarrow> int \<Rightarrow> nat \<Rightarrow> nat" where
  "in_flight tasks concurrency t =
     (let (workers, s) = batchCall_workers tasks concurrency
      in length (filter (\<lambda>i. pending_at t (at_index (results s) i)) (started s)))"

subsection \<open>getRpcs and the main loop\<close>

text \<open>
  \<open>typeof entry === "string" ? entry : entry?.url\<close>, pushed for every entry; a missing
  \<open>rpc\<close> is the empty list.
\<close>

definition getRpcs :: "chain \<Rightarrow> url list" where
  "getRpcs ch =
     map (\<lambda>entry. case entry of EntryString s \<Rightarrow> Some s | EntryObject u \<Rightarrow> u)
       (case c_rpc ch of None \<Rightarrow> [] | Some rpc \<Rightarrow> rpc)"

text \<open>
  \<open>String(chainId)\<close>, also what the template \<open>${chainId}\<close> prints: a string is itself, and
  an integer is its decimal numeral (as JavaScript prints every integer below 10^21).
\<close>

fun String_nat :: "nat \<Rightarrow> string" where
  "String_nat n =
     (if n < 10 then [''0123456789'' ! n]
      else String_nat (n div 10) @ [''0123456789'' ! (n mod 10)])"

definition String :: "chain_id \<Rightarrow> string" where
  "String chainId =
     (case chainId of
        IdStr s \<Rightarrow> s
      | IdNum n \<Rightarrow> if n < 0 then CHR ''-'' # String_nat (nat (- n)) else String_nat (nat n))"

text \<open>
  The state of a run: the files of the output directory (path to content; a path
  exists when it has a content), the network calls made so far, the merged object and
  the five counters. The members of \<open>merged\<close>
  are kept in the order of their first insertion; no statement below depends on the
  order.
\<close>

record run =
  files :: "string \<rightharpoonup> string"
  net :: "net_call list"
  merged :: "(string \<times> chain_result) list"
  totalRpcChecked :: nat
  totalWorking :: nat
  chainIndex :: nat
  skipped :: nat
  written :: nat

text \<open>
  A step of the program either throws, leaving the state it had reached, or goes on
  with a new state. An exception that reaches \<open>main\<close> ends the process.
\<close>

type_synonym 'a step = "(js_error \<times> run) + 'a"

text \<open>
  Line 204, \<open>url.length > 60 ? url.slice(0, 57) + "..." : url\<close>: reading \<open>length\<close> of
  \<open>undefined\<close> throws a \<open>TypeError\<close>.
\<close>

definition shortUrl :: "url \<Rightarrow> js_error + string" where
  "shortUrl url =
     (case url of
        None \<Rightarrow> Inl (TypeError ''Cannot read properties of undefined (reading length)'')
      | Some u \<Rightarrow> Inr (if length u > 60 then take 57 u @ ''...'' else u))"

text \<open>
  The loop of lines 200 to 215 from \<open>idx\<close> on. \<open>outcomes[idx]\<close> is \<open>None\<close> when it is
  \<open>undefined\<close> and \<open>Some None\<close> when it is \<open>null\<close>; both are falsy.
\<close>

function results_loop ::
  "url list \<Rightarrow> rpc_result option option list \<Rightarrow> nat \<Rightarrow> rpc_result list \<Rightarrow> run
    \<Rightarrow> (rpc_result list \<times> run) step" where
  "results_loop urls outcomes idx rpcs st =
     (if idx < length urls then
        (let st1 = st\<lparr> totalRpcChecked := totalRpcChecked st + 1 \<rparr>;
             url = urls ! idx;
             result = at_index outcomes idx
         in case shortUrl url of
              Inl err \<Rightarrow> Inl (err, st1)
            | Inr _ \<Rightarrow>
                (case result of
                   Some (Some r) \<Rightarrow>
                     results_loop urls outcomes (Suc idx) (rpcs @ [r])
                       (st1\<lparr> totalWorking := totalWorking st1 + 1 \<rparr>)
                 | _ \<Rightarrow> results_loop urls outcomes (Suc idx) rpcs st1))
      else Inr (rpcs, st))"
  by pat_completeness auto
termination
  by (relation "measure (\<lambda>(urls, outcomes, idx, rpcs, st). length urls - idx)") auto

declare results_loop.simps [simp del]

text \<open>The outcome that the loop reads at an index, as a list: empty unless it is present.\<close>

definition present_at :: "rpc_result option option list \<Rightarrow> nat \<Rightarrow> rpc_result list" where
  "present_at outs i = (case at_index outs i of Some (Some r) \<Rightarrow> [r] | _ \<Rightarrow> [])"

text \<open>
  The task of a URL: an \<open>async\<close> function whose body is \<open>taskFn\<close>. It returns a promise
  that is fulfilled with the outcome when the probe has taken its time.
\<close>

definition task_of :: "env \<Rightarrow> url \<Rightarrow> rpc_result option task" where
  "task_of e url = (case taskFn e url of (v, calls, took) \<Rightarrow> Settles took (Fulfilled v))"

definition calls_of :: "env \<Rightarrow> url \<Rightarrow> net_call list" where
  "calls_of e url = (case taskFn e url of (v, calls, took) \<Rightarrow> calls)"

text \<open>
  Lines 166 to 171: the chain is skipped and the parsed content of its file becomes its
  member of \<open>merged\<close>. \<open>JSON.parse\<close> throws on a content that is not JSON.
\<close>

definition reuse_existing :: "env \<Rightarrow> chain_id \<Rightarrow> string \<Rightarrow> run \<Rightarrow> run step" where
  "reuse_existing e chainId raw st =
     (case JSON_parse e raw of
        None \<Rightarrow> Inl (SyntaxError ''JSON.parse'', st)
      | Some existing \<Rightarrow>
          Inr (st\<lparr> merged := AList.update (String chainId) (Existing existing) (merged st),
                    skipped := skipped st + 1 \<rparr>))"

text \<open>
  Lines 177 to 181, and again 218 to 220: the payload is written to the file of the
  chain, stored in \<open>merged\<close>, and counted.
\<close>

definition write_payload :: "env \<Rightarrow> string \<Rightarrow> payload \<Rightarrow> run \<Rightarrow> run" where
  "write_payload e filePath payload st =
     st\<lparr> files := (files st)(filePath := Some (JSON_stringify e payload)),
         merged := AList.update (String (p_chainId payload)) (Built payload) (merged st),
         written := written st + 1 \<rparr>"

text \<open>
  Lines 188 to 215: the tasks are built and run through \<open>batchCall\<close>, and the loop
  collects the working endpoints. The network calls of a chain are those of the tasks
  that \<open>batchCall\<close> called, listed task by task; the order in which probes that run
  side by side reach the network is not modelled.
\<close>

definition check_urls :: "env \<Rightarrow> int \<Rightarrow> url list \<Rightarrow> run \<Rightarrow> (rpc_result list \<times> run) step" where
  "check_urls e concurrency urls st =
     (let taskFns = map (task_of e) urls;
          (workers, sched) = batchCall_workers taskFns concurrency;
          st1 = st\<lparr> net := net st @ concat (map (\<lambda>i. calls_of e (urls ! i)) (started sched)) \<rparr>
      in (case outcome (batchCall taskFns concurrency) of
            Rejected err \<Rightarrow> Inl (err, st1)
          | Fulfilled outcomes \<Rightarrow> results_loop urls outcomes 0 [] st1))"

text \<open>The body of the loop over the chains (lines 159 to 221).\<close>

definition main_chain :: "env \<Rightarrow> args \<Rightarrow> chain \<Rightarrow> run \<Rightarrow> run step" where
  "main_chain e a ch st0 =
     (let st = st0\<lparr> chainIndex := chainIndex st0 + 1 \<rparr>;
          name = (case c_name ch of None \<Rightarrow> ''unknown'' | Some n \<Rightarrow> n)
      in (case c_chainId ch of
            None \<Rightarrow> Inr st
          | Some chainId \<Rightarrow>
              (if chainId = IdStr [] then Inr st
               else
                 (let filePath = path_join e (outDir a) (String chainId @ ''.json'') in
                  (case (if skipExisting a then files st filePath else None) of
                     Some raw \<Rightarrow> reuse_existing e chainId raw st
                   | None \<Rightarrow>
                       (let urls = getRpcs ch in
                        (if urls = [] then
                           Inr (write_payload e filePath
                                  \<lparr> p_name = name, p_chainId = chainId, p_rpcs = [] \<rparr> st)
                         else
                           (case check_urls e (batchSize a) urls st of
                              Inl thrown \<Rightarrow> Inl thrown
                            | Inr (rpcs, st2) \<Rightarrow>
                                Inr (write_payload e filePath
                                       \<lparr> p_name = name, p_chainId = chainId, p_rpcs = rpcs \<rparr>
                                       st2)))))))))"

text \<open>\<open>for (const chain of chains)\<close>: the first exception ends the loop.\<close>

fun main_loop :: "env \<Rightarrow> args \<Rightarrow> chain list \<Rightarrow> run \<Rightarrow> run step" where
  "main_loop e a [] st = Inr st"
| "main_loop e a (ch # chs) st =
     (case main_chain e a ch st of
        Inl thrown \<Rightarrow> Inl thrown
      | Inr st' \<Rightarrow> main_loop e a chs st')"

text \<open>
  \<open>main\<close> from line 151 on, for the chains that the directory and the allow-list leave,
  and the files that the output directory holds at the start: the counters and the
  merged object start empty, the loop runs, and the merged file is written last.
\<close>

definition init_run :: "(string \<rightharpoonup> string) \<Rightarrow> run" where
  "init_run fs =
     \<lparr> files = fs, net = [], merged = [], totalRpcChecked = 0, totalWorking = 0,
       chainIndex = 0, skipped = 0, written = 0 \<rparr>"

definition main :: "env \<Rightarrow> string list \<Rightarrow> chain list \<Rightarrow> (string \<rightharpoonup> string) \<Rightarrow> run step" where
  "main e argv chs fs =
     (let a = parseArgs argv in
      case main_loop e a chs (init_run fs) of
        Inl thrown \<Rightarrow> Inl thrown
      | Inr st \<Rightarrow>
          Inr (st\<lparr> files := (files st)(path_join e (outDir a) ''all.json''
                                  := Some (JSON_stringify_merged e (merged st))) \<rparr>))"

subsection \<open>An example run time\<close>

text \<open>
  A run time for the examples: endpoint \<open>a\<close> refuses the connection, \<open>b\<close> and \<open>c\<close>
  answer the call with a block number, \<open>d\<close>, \<open>e\<close> and \<open>f\<close> answer with a number,
  with a string that is not hexadecimal and with a page that is not JSON; \<open>g\<close> answers
  with a full JSON-RPC response whose \<open>result\<close> is its third member, \<open>h\<close> with a
  JSON-RPC error that has no \<open>result\<close>; only the host of \<open>b\<close> has an AAAA record.
\<close>

definition demo_env :: env where
  \<open>demo_env =
     \<lparr> http = (\<lambda>m u.
         if u = ''https://a.example'' then Fails 12
         else if u = ''https://b.example'' \<or> u = ''https://c.example''
           then Replies 40 ''{"result":"0x1a2b"}''
         else if u = ''https://d.example'' then Replies 40 ''{"result":123}''
         else if u = ''https://e.example'' then Replies 40 ''{"result":"1a2b"}''
         else if u = ''https://f.example'' then Replies 40 ''<html>''
         else if u = ''https://g.example''
           then Replies 40 ''{"jsonrpc":"2.0","id":1,"result":"0x1a2b"}''
         else if u = ''https://h.example''
           then Replies 40 ''{"jsonrpc":"2.0","id":1,"error":"0x1"}''
         else Fails 3000),
       dnsResolve = (\<lambda>h.
         if h = ''b.example'' then Replies 9 [''2001:db8::1'']
         else if h = ''c.example'' then Replies 9 []
         else Fails 5000),
       URL_hostname = (\<lambda>u. if take 8 u = ''https://'' then Some (drop 8 u) else None),
       JSON_parse = (\<lambda>s.
         if s = ''{"result":"0x1a2b"}'' then Some (JObj [(''result'', JStr ''0x1a2b'')])
         else if s = ''{"result":123}'' then Some (JObj [(''result'', JNum 123)])
         else if s = ''{"result":"1a2b"}'' then Some (JObj [(''result'', JStr ''1a2b'')])
         else if s = ''{"jsonrpc":"2.0","id":1,"result":"0x1a2b"}''
           then Some (JObj [(''jsonrpc'', JStr ''2.0''), (''id'', JNum 1),
                            (''result'', JStr ''0x1a2b'')])
         else if s = ''{"jsonrpc":"2.0","id":1,"error":"0x1"}''
           then Some (JObj [(''jsonrpc'', JStr ''2.0''), (''id'', JNum 1),
                            (''error'', JStr ''0x1'')])
         else if s = ''{"name":"Old","chainId":1,"rpcs":[]}''
           then Some (JObj [(''name'', JStr ''Old''), (''chainId'', JNum 1), (''rpcs'', JArr [])])
         else None),
       JSON_stringify = (\<lambda>p. p_name p @ '' '' @ String (p_chainId p)),
       JSON_stringify_merged = (\<lambda>m. concat (map fst m)),
       path_join = (\<lambda>d f. d @ ''/'' @ f) \<rparr>\<close>

definition url_a :: string where "url_a = ''https://a.example''"

definition url_b :: string where "url_b = ''https://b.example''"

definition url_c :: string where "url_c = ''https://c.example''"

text \<open>A chain with the candidates \<open>a\<close>, \<open>b\<close>, \<open>c\<close>, the second given as an object.\<close>

definition demo_chain :: chain where
  "demo_chain =
     \<lparr> c_name = Some ''Example'', c_chainId = Some (IdNum 1),
       c_rpc = Some [EntryString url_a, EntryObject (Some url_b), EntryString url_c] \<rparr>"

text \<open>
  A chain whose second entry is an object without a \<open>url\<close> field; its first entry is a
  string that is no URL.
\<close>

definition broken_chain :: chain where
  "broken_chain =
     \<lparr> c_name = None, c_chainId = Some (IdNum 5),
       c_rpc = Some [EntryString ''not a url'', EntryObject None] \<rparr>"

text \<open>The content of a file that an earlier run wrote for chain 1.\<close>

definition old_file :: string where
  \<open>old_file = ''{"name":"Old","chainId":1,"rpcs":[]}''\<close>

section \<open>Properties\<close>

subsection \<open>The batch argument\<close>

text \<open>
  C10, as amended. The batch size that \<open>parseArgs\<close> returns lies in [1, 128]. It is 16
  when there is no \<open>--batch=\<close> argument and when the argument does not parse as a number;
  a number below 1 also gives 16, and a number from 1 on gives the smaller of itself
  and 128.
\<close>

theorem parseArgs_batchSize:
  "1 \<le> batchSize (parseArgs argv) \<and> batchSize (parseArgs argv) \<le> 128
   \<and> (batchArg argv = None \<longrightarrow> batchSize (parseArgs argv) = 16)
   \<and> (\<forall>a. batchArg argv = Some a \<and> parseInt_arg a = None
          \<longrightarrow> batchSize (parseArgs argv) = 16)
   \<and> (\<forall>a n. batchArg argv = Some a \<and> parseInt_arg a = Some n
          \<longrightarrow> batchSize (parseArgs argv) = (if n < 1 then 16 else min n 128))"
  by (auto simp: parseArgs_def batchSize_of_def batch_of_def BATCH_SIZE_def
           split: option.splits)

text \<open>The argument \<open>--batch=200\<close> is read as 200 and gives 128.\<close>

theorem parseArgs_batchSize_witness:
  "batchArg [''node'', ''index.js'', ''--batch=200''] = Some ''--batch=200''
   \<and> parseInt_arg ''--batch=200'' = Some 200
   \<and> batchSize (parseArgs [''node'', ''index.js'', ''--batch=200'']) = 128"
proof -
  have a: "batchArg [''node'', ''index.js'', ''--batch=200''] = Some ''--batch=200''"
    by code_simp
  have b: "parseInt_arg ''--batch=200'' = Some 200"
    by code_simp
  from parseArgs_batchSize [of "[''node'', ''index.js'', ''--batch=200'']"] a b
  have "batchSize (parseArgs [''node'', ''index.js'', ''--batch=200'']) =
          (if (200::int) < 1 then 16 else min 200 128)"
    by blast
  then show ?thesis using a b by simp
qed

text \<open>
  C10 as the spec states it fails: the explicit value 0 is not clamped to 1, the lower
  end of the interval; the batch size is the default 16.
\<close>

theorem parseArgs_batchSize_not_clamped:
  "parseInt_arg ''--batch=0'' = Some 0
   \<and> batchSize (parseArgs [''node'', ''index.js'', ''--batch=0'']) = 16
   \<and> clamp_1_128 0 = 1"
  by code_simp

subsection \<open>The RPC check\<close>

lemma is_hex_digit_set: "is_hex_digit c \<longleftrightarrow> c \<in> set ''0123456789abcdefABCDEF''"
proof -
  have eq: "\<And>d. c = d \<longleftrightarrow> (of_char c :: nat) = of_char d"
    by simp
  show ?thesis
    unfolding is_hex_digit_def in_range_def
    by (simp add: eq) arith
qed

lemma HEX_RESULT_test_iff:
  "HEX_RESULT_test s \<longleftrightarrow>
     (\<exists>ds. s = ''0x'' @ ds \<and> ds \<noteq> [] \<and> set ds \<subseteq> set ''0123456789abcdefABCDEF'')"
proof -
  have "HEX_RESULT_test s \<longleftrightarrow>
     (\<exists>ds. s = ''0x'' @ ds \<and> ds \<noteq> [] \<and> (\<forall>c \<in> set ds. is_hex_digit c))"
    by (auto simp: HEX_RESULT_test_def list_all_iff split: list.splits)
  also have "\<dots> \<longleftrightarrow> (\<exists>ds. s = ''0x'' @ ds \<and> ds \<noteq> [] \<and> set ds \<subseteq> set ''0123456789abcdefABCDEF'')"
    unfolding is_hex_digit_set by blast
  finally show ?thesis .
qed

lemma checkRpc_replied:
  assumes "http e POST u = Replies ms body" and "ms < 10000"
  shows "fst (checkRpc e (Some u)) \<longleftrightarrow>
           (\<exists>data s. JSON_parse e body = Some data \<and> result_of data = Some (JStr s)
              \<and> HEX_RESULT_test s)"
  using assms
  by (simp add: checkRpc_def fetch_def within_def RPC_TIMEOUT_MS_def
           split: option.split json.split)

lemma checkRpc_no_reply:
  "url = None \<or> (\<exists>u ms. url = Some u \<and> http e POST u = Fails ms)
     \<or> (\<exists>u ms body. url = Some u \<and> http e POST u = Replies ms body \<and> 10000 \<le> ms)
   \<Longrightarrow> \<not> fst (checkRpc e url)"
  by (auto simp: checkRpc_def fetch_def within_def RPC_TIMEOUT_MS_def)

lemma map_of_rev_last:
  "map_of (rev kvs) k = Some v \<longleftrightarrow>
     (\<exists>xs ys. kvs = xs @ (k, v) # ys \<and> k \<notin> fst ` set ys)"
proof (induction kvs rule: rev_induct)
  case Nil
  show ?case by simp
next
  case (snoc kv kvs)
  obtain k' v' where kv: "kv = (k', v')" by (cases kv)
  show ?case
  proof (cases "k' = k")
    case True
    have "(\<exists>xs ys. kvs @ [(k, v')] = xs @ (k, v) # ys \<and> k \<notin> fst ` set ys) \<longleftrightarrow> v' = v"
    proof
      assume "\<exists>xs ys. kvs @ [(k, v')] = xs @ (k, v) # ys \<and> k \<notin> fst ` set ys"
      then obtain xs ys where e: "kvs @ [(k, v')] = xs @ (k, v) # ys" and n: "k \<notin> fst ` set ys"
        by blast
      show "v' = v"
      proof (cases ys rule: rev_cases)
        case Nil
        with e show ?thesis by simp
      next
        case (snoc zs z)
        with e have "z = (k, v')" by simp
        with snoc n show ?thesis by simp
      qed
    next
      assume "v' = v"
      then have "kvs @ [(k, v')] = kvs @ (k, v) # [] \<and> k \<notin> fst ` set []" by simp
      then show "\<exists>xs ys. kvs @ [(k, v')] = xs @ (k, v) # ys \<and> k \<notin> fst ` set ys" by blast
    qed
    with True kv show ?thesis by auto
  next
    case False
    have "(\<exists>xs ys. kvs @ [(k', v')] = xs @ (k, v) # ys \<and> k \<notin> fst ` set ys)
            \<longleftrightarrow> (\<exists>xs ys. kvs = xs @ (k, v) # ys \<and> k \<notin> fst ` set ys)"
    proof
      assume "\<exists>xs ys. kvs @ [(k', v')] = xs @ (k, v) # ys \<and> k \<notin> fst ` set ys"
      then obtain xs ys where e: "kvs @ [(k', v')] = xs @ (k, v) # ys" and n: "k \<notin> fst ` set ys"
        by blast
      show "\<exists>xs ys. kvs = xs @ (k, v) # ys \<and> k \<notin> fst ` set ys"
      proof (cases ys rule: rev_cases)
        case Nil
        with e False show ?thesis by simp
      next
        case (snoc zs z)
        with e have "kvs = xs @ (k, v) # zs" by simp
        moreover from snoc n have "k \<notin> fst ` set zs" by simp
        ultimately show ?thesis by blast
      qed
    next
      assume "\<exists>xs ys. kvs = xs @ (k, v) # ys \<and> k \<notin> fst ` set ys"
      then obtain xs ys where "kvs = xs @ (k, v) # ys" and "k \<notin> fst ` set ys" by blast
      with False have "kvs @ [(k', v')] = xs @ (k, v) # (ys @ [(k', v')])
          \<and> k \<notin> fst ` set (ys @ [(k', v')])" by auto
      then show "\<exists>xs ys. kvs @ [(k', v')] = xs @ (k, v) # ys \<and> k \<notin> fst ` set ys" by blast
    qed
    with False kv snoc.IH show ?thesis by simp
  qed
qed

text \<open>The field \<open>result\<close> of a parsed body, without the function of the model.\<close>

lemma result_of_iff:
  "result_of data = Some v \<longleftrightarrow>
     (\<exists>xs ys. data = JObj (xs @ (''result'', v) # ys) \<and> ''result'' \<notin> fst ` set ys)"
  by (cases data) (auto simp: result_of_def map_of_rev_last)

text \<open>
  C5. When the response to the call arrives before the deadline, \<open>checkRpc\<close> succeeds if
  and only if the body parses as JSON to an object that has a member named \<open>result\<close>, and
  the value of that member (of the last one, should the name occur twice) is a string
  made of \<open>0x\<close> and at least one hexadecimal digit. The member may stand anywhere in the
  object: \<open>{"result":"0x1a2b"}\<close> and \<open>{"jsonrpc":"2.0","id":1,"result":"0x1a2b"}\<close> are
  accepted. \<open>{"result":"1a2b"}\<close>, \<open>{"result":123}\<close>, an object with no member \<open>result\<close>
  such as \<open>{"jsonrpc":"2.0","id":1,"error":"0x1"}\<close>, a JSON value that is no object, and
  a body that is not JSON are rejected. Without a response in time the check fails.
\<close>

theorem checkRpc_succeeds_iff:
  "(\<forall>u ms body. http e POST u = Replies ms body \<and> ms < 10000 \<longrightarrow>
      (fst (checkRpc e (Some u)) \<longleftrightarrow>
         (\<exists>xs ys s ds. JSON_parse e body = Some (JObj (xs @ (''result'', JStr s) # ys))
            \<and> ''result'' \<notin> fst ` set ys
            \<and> s = ''0x'' @ ds \<and> ds \<noteq> [] \<and> set ds \<subseteq> set ''0123456789abcdefABCDEF''))
      \<and> (JSON_parse e body = Some (JObj [(''result'', JStr ''0x1a2b'')])
            \<longrightarrow> fst (checkRpc e (Some u)))
      \<and> (JSON_parse e body
             = Some (JObj [(''jsonrpc'', JStr ''2.0''), (''id'', JNum 1),
                           (''result'', JStr ''0x1a2b'')])
            \<longrightarrow> fst (checkRpc e (Some u)))
      \<and> (JSON_parse e body
             = Some (JObj [(''result'', JStr ''0xAB''), (''id'', JNum 1)])
            \<longrightarrow> fst (checkRpc e (Some u)))
      \<and> (JSON_parse e body
             = Some (JObj [(''result'', JStr ''zz''), (''result'', JStr ''0x1a2b'')])
            \<longrightarrow> fst (checkRpc e (Some u)))
      \<and> (JSON_parse e body = Some (JObj [(''result'', JStr ''1a2b'')])
            \<longrightarrow> \<not> fst (checkRpc e (Some u)))
      \<and> (JSON_parse e body = Some (JObj [(''result'', JNum 123)])
            \<longrightarrow> \<not> fst (checkRpc e (Some u)))
      \<and> (JSON_parse e body
             = Some (JObj [(''jsonrpc'', JStr ''2.0''), (''id'', JNum 1), (''error'', JStr ''0x1'')])
            \<longrightarrow> \<not> fst (checkRpc e (Some u)))
      \<and> (\<forall>members. JSON_parse e body = Some (JObj members)
             \<and> ''result'' \<notin> fst ` set members \<longrightarrow> \<not> fst (checkRpc e (Some u)))
      \<and> (\<forall>data. JSON_parse e body = Some data \<and> (\<forall>members. data \<noteq> JObj members)
            \<longrightarrow> \<not> fst (checkRpc e (Some u)))
      \<and> (JSON_parse e body = None \<longrightarrow> \<not> fst (checkRpc e (Some u))))
   \<and> (fst (checkRpc e url) \<longrightarrow>
         (\<exists>u ms body. url = Some u \<and> http e POST u = Replies ms body \<and> ms < 10000))"
proof (intro conjI allI impI)
  fix u ms body
  assume r: "http e POST u = Replies ms body \<and> ms < 10000"
  then have iff: "fst (checkRpc e (Some u)) \<longleftrightarrow>
           (\<exists>data s. JSON_parse e body = Some data \<and> result_of data = Some (JStr s)
              \<and> HEX_RESULT_test s)"
    using checkRpc_replied by blast
  show "fst (checkRpc e (Some u)) \<longleftrightarrow>
         (\<exists>xs ys s ds. JSON_parse e body = Some (JObj (xs @ (''result'', JStr s) # ys))
            \<and> ''result'' \<notin> fst ` set ys
            \<and> s = ''0x'' @ ds \<and> ds \<noteq> [] \<and> set ds \<subseteq> set ''0123456789abcdefABCDEF'')"
    unfolding iff HEX_RESULT_test_iff result_of_iff by blast
  show "fst (checkRpc e (Some u))"
    if "JSON_parse e body = Some (JObj [(''result'', JStr ''0x1a2b'')])"
    unfolding iff using that
    by (simp add: result_of_def HEX_RESULT_test_def is_hex_digit_def in_range_def)
  show "fst (checkRpc e (Some u))"
    if "JSON_parse e body
             = Some (JObj [(''jsonrpc'', JStr ''2.0''), (''id'', JNum 1),
                           (''result'', JStr ''0x1a2b'')])"
    unfolding iff using that
    by (simp add: result_of_def HEX_RESULT_test_def is_hex_digit_def in_range_def)
  show "fst (checkRpc e (Some u))"
    if "JSON_parse e body = Some (JObj [(''result'', JStr ''0xAB''), (''id'', JNum 1)])"
    unfolding iff using that
    by (simp add: result_of_def HEX_RESULT_test_def is_hex_digit_def in_range_def)
  show "fst (checkRpc e (Some u))"
    if "JSON_parse e body
          = Some (JObj [(''result'', JStr ''zz''), (''result'', JStr ''0x1a2b'')])"
    unfolding iff using that
    by (simp add: result_of_def HEX_RESULT_test_def is_hex_digit_def in_range_def)
  show "\<not> fst (checkRpc e (Some u))"
    if "JSON_parse e body = Some (JObj [(''result'', JStr ''1a2b'')])"
    unfolding iff using that by (simp add: result_of_def HEX_RESULT_test_def)
  show "\<not> fst (checkRpc e (Some u))"
    if "JSON_parse e body = Some (JObj [(''result'', JNum 123)])"
    unfolding iff using that by (simp add: result_of_def)
  show "\<not> fst (checkRpc e (Some u))"
    if "JSON_parse e body
          = Some (JObj [(''jsonrpc'', JStr ''2.0''), (''id'', JNum 1), (''error'', JStr ''0x1'')])"
    unfolding iff using that by (simp add: result_of_def)
  show "\<not> fst (checkRpc e (Some u))"
    if "JSON_parse e body = Some (JObj members) \<and> ''result'' \<notin> fst ` set members" for members
  proof -
    from that have "result_of (JObj members) = None"
      by (cases "result_of (JObj members)") (auto simp: result_of_iff)
    with that show ?thesis unfolding iff by simp
  qed
  show "\<not> fst (checkRpc e (Some u))"
    if "JSON_parse e body = Some data \<and> (\<forall>members. data \<noteq> JObj members)" for data
  proof -
    from that have "result_of data = None"
      by (cases data) (simp_all add: result_of_def)
    with that show ?thesis unfolding iff by simp
  qed
  show "\<not> fst (checkRpc e (Some u))" if "JSON_parse e body = None"
    unfolding iff using that by simp
next
  assume "fst (checkRpc e url)"
  then show "\<exists>u ms body. url = Some u \<and> http e POST u = Replies ms body \<and> ms < 10000"
    using checkRpc_no_reply [of url e]
    by (cases url; cases "http e POST (the url)") (auto simp: not_le [symmetric])
qed

text \<open>
  In the example, endpoint \<open>g\<close> answers in time with a response whose third member is
  \<open>"result":"0x1a2b"\<close> and passes; endpoint \<open>h\<close> answers with an error object that has a
  hexadecimal string but no \<open>result\<close>, and fails.
\<close>

theorem checkRpc_succeeds_iff_witness:
  \<open>http demo_env POST ''https://g.example''
      = Replies 40 ''{"jsonrpc":"2.0","id":1,"result":"0x1a2b"}''
   \<and> (40::nat) < 10000
   \<and> JSON_parse demo_env ''{"jsonrpc":"2.0","id":1,"result":"0x1a2b"}''
       = Some (JObj [(''jsonrpc'', JStr ''2.0''), (''id'', JNum 1), (''result'', JStr ''0x1a2b'')])
   \<and> fst (checkRpc demo_env (Some ''https://g.example''))
   \<and> http demo_env POST ''https://h.example''
      = Replies 40 ''{"jsonrpc":"2.0","id":1,"error":"0x1"}''
   \<and> JSON_parse demo_env ''{"jsonrpc":"2.0","id":1,"error":"0x1"}''
       = Some (JObj [(''jsonrpc'', JStr ''2.0''), (''id'', JNum 1), (''error'', JStr ''0x1'')])
   \<and> \<not> fst (checkRpc demo_env (Some ''https://h.example''))\<close>
proof -
  have g: \<open>http demo_env POST ''https://g.example''
             = Replies 40 ''{"jsonrpc":"2.0","id":1,"result":"0x1a2b"}'' \<and> (40::nat) < 10000\<close>
    by (simp add: demo_env_def)
  have gj: \<open>JSON_parse demo_env ''{"jsonrpc":"2.0","id":1,"result":"0x1a2b"}''
       = Some (JObj [(''jsonrpc'', JStr ''2.0''), (''id'', JNum 1), (''result'', JStr ''0x1a2b'')])\<close>
    by (simp add: demo_env_def)
  have h: \<open>http demo_env POST ''https://h.example''
             = Replies 40 ''{"jsonrpc":"2.0","id":1,"error":"0x1"}'' \<and> (40::nat) < 10000\<close>
    by (simp add: demo_env_def)
  have hj: \<open>JSON_parse demo_env ''{"jsonrpc":"2.0","id":1,"error":"0x1"}''
       = Some (JObj [(''jsonrpc'', JStr ''2.0''), (''id'', JNum 1), (''error'', JStr ''0x1'')])\<close>
    by (simp add: demo_env_def)
  note inst = checkRpc_succeeds_iff [of demo_env, THEN conjunct1, rule_format]
  from inst [OF g] gj have yes: "fst (checkRpc demo_env (Some ''https://g.example''))"
    by (elim conjE) (erule (1) impE)
  from inst [OF h] hj have no: "\<not> fst (checkRpc demo_env (Some ''https://h.example''))"
    by (elim conjE) simp
  from g gj yes h hj no show ?thesis by (intro conjI) simp_all
qed

subsection \<open>The probe\<close>

lemma checkConnect_calls: "fst (snd (checkConnect e url)) = [Fetch GET url]"
  by (simp add: checkConnect_def split: reply.split)

lemma checkRpc_calls: "fst (snd (checkRpc e url)) = [Fetch POST url]"
  by (simp add: checkRpc_def split: reply.split option.split json.split)

lemma taskFn_cases:
  "taskFn e url =
     (if \<not> fst (checkConnect e url)
      then (None, [Fetch GET url], snd (snd (checkConnect e url)))
      else if \<not> fst (checkRpc e url)
      then (None, [Fetch GET url, Fetch POST url],
            snd (snd (checkConnect e url)) + snd (snd (checkRpc e url)))
      else (Some \<lparr> r_url = url, supportsIpv6 = fst (checkIpv6 e (extractHost e url)) \<rparr>,
            [Fetch GET url, Fetch POST url] @ fst (snd (checkIpv6 e (extractHost e url))),
            snd (snd (checkConnect e url)) + snd (snd (checkRpc e url))
              + snd (snd (checkIpv6 e (extractHost e url)))))"
proof -
  obtain b1 c1 t1 where 1: "checkConnect e url = (b1, c1, t1)"
    by (cases "checkConnect e url") auto
  obtain b2 c2 t2 where 2: "checkRpc e url = (b2, c2, t2)"
    by (cases "checkRpc e url") auto
  obtain b3 c3 t3 where 3: "checkIpv6 e (extractHost e url) = (b3, c3, t3)"
    by (cases "checkIpv6 e (extractHost e url)") auto
  from 1 checkConnect_calls [of e url] have c1: "c1 = [Fetch GET url]" by simp
  from 2 checkRpc_calls [of e url] have c2: "c2 = [Fetch POST url]" by simp
  show ?thesis by (simp add: taskFn_def 1 2 3 c1 c2)
qed

lemma checkConnect_iff:
  "fst (checkConnect e url) \<longleftrightarrow>
     (\<exists>u ms body. url = Some u \<and> http e GET u = Replies ms body \<and> ms < 3000)"
proof (cases url)
  case None
  then show ?thesis by (simp add: checkConnect_def fetch_def)
next
  case (Some u)
  then show ?thesis
    by (cases "http e GET u")
       (simp_all add: checkConnect_def fetch_def within_def CONNECT_TIMEOUT_MS_def)
qed

text \<open>
  C4. The probe of a URL runs the connectivity check, then the RPC check, then the IPv6
  check. When the connectivity check fails (no response within 3000 ms), the only
  network call is the connectivity request and the outcome is \<open>null\<close>. When it passes and
  the RPC check fails, the calls are the two requests, no name is resolved, and the
  outcome is \<open>null\<close>. When both pass the outcome is present and carries the result of the
  IPv6 check; a failed IPv6 check gives a present outcome whose flag is false.
\<close>

theorem taskFn_short_circuit:
  "(fst (checkConnect e url) \<longleftrightarrow>
      (\<exists>u ms body. url = Some u \<and> http e GET u = Replies ms body \<and> ms < 3000))
   \<and> (\<not> fst (checkConnect e url) \<longrightarrow>
      fst (taskFn e url) = None \<and> calls_of e url = [Fetch GET url])
   \<and> (fst (checkConnect e url) \<and> \<not> fst (checkRpc e url) \<longrightarrow>
      fst (taskFn e url) = None \<and> calls_of e url = [Fetch GET url, Fetch POST url])
   \<and> (fst (checkConnect e url) \<and> fst (checkRpc e url) \<longrightarrow>
      fst (taskFn e url)
        = Some \<lparr> r_url = url, supportsIpv6 = fst (checkIpv6 e (extractHost e url)) \<rparr>
      \<and> calls_of e url
        = [Fetch GET url, Fetch POST url] @ fst (snd (checkIpv6 e (extractHost e url)))
      \<and> (\<not> fst (checkIpv6 e (extractHost e url)) \<longrightarrow>
            fst (taskFn e url) = Some \<lparr> r_url = url, supportsIpv6 = False \<rparr>))"
  using checkConnect_iff [of e url] by (simp add: calls_of_def taskFn_cases)

text \<open>
  In the example, endpoint \<open>a\<close> fails the connectivity check, \<open>d\<close> fails the RPC check,
  and \<open>c\<close> passes both and has no AAAA record.
\<close>

theorem taskFn_short_circuit_witness:
  "\<not> fst (checkConnect demo_env (Some ''https://a.example''))
   \<and> fst (taskFn demo_env (Some ''https://a.example'')) = None
   \<and> calls_of demo_env (Some ''https://a.example'') = [Fetch GET (Some ''https://a.example'')]
   \<and> fst (checkConnect demo_env (Some ''https://d.example''))
   \<and> \<not> fst (checkRpc demo_env (Some ''https://d.example''))
   \<and> fst (taskFn demo_env (Some ''https://d.example'')) = None
   \<and> calls_of demo_env (Some ''https://d.example'')
       = [Fetch GET (Some ''https://d.example''), Fetch POST (Some ''https://d.example'')]
   \<and> fst (checkConnect demo_env (Some ''https://c.example''))
   \<and> fst (checkRpc demo_env (Some ''https://c.example''))
   \<and> \<not> fst (checkIpv6 demo_env (extractHost demo_env (Some ''https://c.example'')))
   \<and> fst (taskFn demo_env (Some ''https://c.example''))
       = Some \<lparr> r_url = Some ''https://c.example'', supportsIpv6 = False \<rparr>"
proof -
  have a: "\<not> fst (checkConnect demo_env (Some ''https://a.example''))"
    by (simp add: checkConnect_def fetch_def within_def demo_env_def)
  have d: "fst (checkConnect demo_env (Some ''https://d.example''))
           \<and> \<not> fst (checkRpc demo_env (Some ''https://d.example''))"
    by (simp add: checkConnect_def checkRpc_def fetch_def within_def demo_env_def
          CONNECT_TIMEOUT_MS_def RPC_TIMEOUT_MS_def result_of_def)
  have c: "fst (checkConnect demo_env (Some ''https://c.example''))
           \<and> fst (checkRpc demo_env (Some ''https://c.example''))
           \<and> \<not> fst (checkIpv6 demo_env (extractHost demo_env (Some ''https://c.example'')))"
    by (simp add: checkConnect_def checkRpc_def checkIpv6_def extractHost_def fetch_def
          within_def demo_env_def CONNECT_TIMEOUT_MS_def RPC_TIMEOUT_MS_def DNS_TIMEOUT_MS_def
          result_of_def HEX_RESULT_test_def is_hex_digit_def in_range_def)
  show ?thesis
    using taskFn_short_circuit [of demo_env "Some ''https://a.example''"]
      taskFn_short_circuit [of demo_env "Some ''https://d.example''"]
      taskFn_short_circuit [of demo_env "Some ''https://c.example''"] a d c
    by simp
qed

subsection \<open>The IPv6 flag\<close>

text \<open>
  C9. The IPv6 check of a host is true exactly when the host is not empty and the AAAA
  lookup answers before 5000 ms with at least one record. It is false for the empty
  host, for which no lookup is made, when the lookup fails, when it takes more than 5000
  ms, and when it answers with no record. A URL that the URL parser rejects has the
  empty host. The flag of a present outcome is the result of this check on the host of
  its URL.
\<close>

theorem checkIpv6_flag:
  "(fst (checkIpv6 e host) \<longleftrightarrow>
      host \<noteq> [] \<and> (\<exists>ms aaaa. dnsResolve e host = Replies ms aaaa \<and> ms < 5000 \<and> aaaa \<noteq> []))
   \<and> (host = [] \<longrightarrow> fst (snd (checkIpv6 e host)) = [])
   \<and> (\<forall>ms. dnsResolve e host = Fails ms \<longrightarrow> \<not> fst (checkIpv6 e host))
   \<and> (\<forall>ms aaaa. dnsResolve e host = Replies ms aaaa \<and> 5000 < ms \<longrightarrow> \<not> fst (checkIpv6 e host))
   \<and> (\<forall>ms. dnsResolve e host = Replies ms [] \<longrightarrow> \<not> fst (checkIpv6 e host))
   \<and> (url = None \<or> (\<exists>u. url = Some u \<and> URL_hostname e u = None)
         \<longrightarrow> extractHost e url = [])
   \<and> (\<forall>r. fst (taskFn e url) = Some r \<longrightarrow>
         supportsIpv6 r = fst (checkIpv6 e (extractHost e url))
         \<and> (extractHost e url = [] \<longrightarrow>
               \<not> supportsIpv6 r \<and> calls_of e url = [Fetch GET url, Fetch POST url]))"
proof -
  have host: "url = None \<or> (\<exists>u. url = Some u \<and> URL_hostname e u = None)
         \<longrightarrow> extractHost e url = []"
    by (auto simp: extractHost_def)
  have iff: "fst (checkIpv6 e host) \<longleftrightarrow>
      host \<noteq> [] \<and> (\<exists>ms aaaa. dnsResolve e host = Replies ms aaaa \<and> ms < 5000 \<and> aaaa \<noteq> [])"
    by (cases "dnsResolve e host") (simp_all add: checkIpv6_def within_def DNS_TIMEOUT_MS_def)
  have empty: "host = [] \<longrightarrow> fst (snd (checkIpv6 e host)) = []"
    by (simp add: checkIpv6_def)
  have probe: "\<forall>r. fst (taskFn e url) = Some r \<longrightarrow>
         supportsIpv6 r = fst (checkIpv6 e (extractHost e url))
         \<and> (extractHost e url = [] \<longrightarrow>
               \<not> supportsIpv6 r \<and> calls_of e url = [Fetch GET url, Fetch POST url])"
    by (auto simp: taskFn_cases calls_of_def checkIpv6_def split: if_splits)
  from iff empty host probe show ?thesis by auto
qed

text \<open>
  In the example the host of \<open>b\<close> has one AAAA record and the host of \<open>c\<close> has none.
\<close>

theorem checkIpv6_flag_witness:
  "extractHost demo_env (Some ''https://b.example'') = ''b.example''
   \<and> dnsResolve demo_env ''b.example'' = Replies 9 [''2001:db8::1'']
   \<and> fst (checkIpv6 demo_env ''b.example'')
   \<and> dnsResolve demo_env ''c.example'' = Replies 9 []
   \<and> \<not> fst (checkIpv6 demo_env ''c.example'')
   \<and> fst (taskFn demo_env (Some ''https://b.example''))
       = Some \<lparr> r_url = Some ''https://b.example'', supportsIpv6 = True \<rparr>"
proof -
  have h: "extractHost demo_env (Some ''https://b.example'') = ''b.example''"
    by (simp add: extractHost_def demo_env_def)
  have b: "dnsResolve demo_env ''b.example'' = Replies 9 [''2001:db8::1'']"
    and c: "dnsResolve demo_env ''c.example'' = Replies 9 []"
    by (simp_all add: demo_env_def)
  have t: "fst (taskFn demo_env (Some ''https://b.example''))
       = Some \<lparr> r_url = Some ''https://b.example'',
                 supportsIpv6 = fst (checkIpv6 demo_env ''b.example'') \<rparr>"
    by (simp add: taskFn_cases checkConnect_def checkRpc_def extractHost_def fetch_def
          within_def demo_env_def CONNECT_TIMEOUT_MS_def RPC_TIMEOUT_MS_def
          result_of_def HEX_RESULT_test_def is_hex_digit_def in_range_def)
  from checkIpv6_flag [of demo_env "''b.example''" "Some ''https://b.example''"] b
  have yes: "fst (checkIpv6 demo_env ''b.example'')" by simp
  from checkIpv6_flag [of demo_env "''c.example''" "Some ''https://c.example''"] c
  have no: "\<not> fst (checkIpv6 demo_env ''c.example'')" by simp
  from h b c t yes no show ?thesis by simp
qed

subsection \<open>The worker pool\<close>

lemma worker_done: "length tasks \<le> index s \<Longrightarrow> worker tasks s = (Fulfilled (), s)"
  by (simp add: worker.simps)

lemma worker_Throws:
  "index s < length tasks \<Longrightarrow> tasks ! index s = Throws e \<Longrightarrow>
   worker tasks s = (Rejected e, s\<lparr> index := Suc (index s), started := started s @ [index s] \<rparr>)"
  by (subst worker.simps) (simp add: Let_def)

lemma worker_Settles:
  "index s < length tasks \<Longrightarrow> tasks ! index s = Settles d out \<Longrightarrow>
   worker tasks s =
     worker tasks (s\<lparr> index := Suc (index s), started := started s @ [index s],
                      results := assign (results s) (index s) \<lparr> settles_at = d, outcome = out \<rparr> \<rparr>)"
  by (subst worker.simps) (simp add: Let_def)

lemma assign_end: "assign xs (length xs) v = xs @ [Some v]"
  by (simp add: assign_def)

lemma worker_started:
  "index s \<le> index (snd (worker tasks s))
   \<and> started (snd (worker tasks s)) = started s @ [index s ..< index (snd (worker tasks s))]"
proof (induction tasks s rule: worker.induct)
  case (1 tasks s)
  show ?case
  proof (cases "index s < length tasks")
    case False
    then show ?thesis by (simp add: worker_done)
  next
    case True
    show ?thesis
    proof (cases "tasks ! index s")
      case (Throws e)
      with True show ?thesis by (simp add: worker_Throws)
    next
      case (Settles d out)
      let ?s2 = "s\<lparr> index := Suc (index s), started := started s @ [index s],
                   results := assign (results s) (index s) \<lparr> settles_at = d, outcome = out \<rparr> \<rparr>"
      have ih: "index ?s2 \<le> index (snd (worker tasks ?s2))
        \<and> started (snd (worker tasks ?s2)) = started ?s2 @ [index ?s2 ..< index (snd (worker tasks ?s2))]"
        using "1.IH" [OF True refl refl Settles] by simp
      then show ?thesis
        unfolding worker_Settles [OF True Settles] by (simp add: upt_conv_Cons)
    qed
  qed
qed

lemma spawn_started:
  "index s \<le> index (snd (spawn n tasks s))
   \<and> started (snd (spawn n tasks s)) = started s @ [index s ..< index (snd (spawn n tasks s))]"
proof (induction n arbitrary: s)
  case 0
  show ?case by simp
next
  case (Suc n)
  obtain w s1 where w: "worker tasks s = (w, s1)" by (cases "worker tasks s") auto
  obtain ws s2 where ws: "spawn n tasks s1 = (ws, s2)" by (cases "spawn n tasks s1") auto
  from worker_started [of s tasks] w
  have 1: "index s \<le> index s1" "started s1 = started s @ [index s ..< index s1]" by simp_all
  from Suc [of s1] ws
  have 2: "index s1 \<le> index s2" "started s2 = started s1 @ [index s1 ..< index s2]" by simp_all
  have "[index s ..< index s2] = [index s ..< index s1] @ [index s1 ..< index s2]"
    using 1(1) 2(1) by (metis le_Suc_ex upt_add_eq_append)
  with 1 2 show ?case by (simp add: w ws)
qed

lemma batchCall_workers_started:
  "started (snd (batchCall_workers tasks c)) = [0 ..< index (snd (batchCall_workers tasks c))]"
  using spawn_started [of "\<lparr> index = 0, results = [], started = [] \<rparr>"
      "nat (min c (int (length tasks)))" tasks]
  by (simp add: batchCall_workers_def)

lemma worker_index_le:
  "index s \<le> length tasks \<Longrightarrow> index (snd (worker tasks s)) \<le> length tasks"
proof (induction tasks s rule: worker.induct)
  case (1 tasks s)
  show ?case
  proof (cases "index s < length tasks")
    case False
    with "1.prems" show ?thesis by (simp add: worker_done)
  next
    case True
    show ?thesis
    proof (cases "tasks ! index s")
      case (Throws e)
      with True show ?thesis by (simp add: worker_Throws)
    next
      case (Settles d out)
      show ?thesis
        unfolding worker_Settles [OF True Settles]
        using "1.IH" [OF True refl refl Settles] True by simp
    qed
  qed
qed

text \<open>No throwing task from the cursor on: the worker calls all the remaining tasks.\<close>

lemma worker_all_settle:
  assumes "\<forall>t \<in> set (drop (index s) tasks). promise_of t \<noteq> None"
    and "length (results s) = index s" and "index s \<le> length tasks"
  shows "worker tasks s =
           (Fulfilled (),
            s\<lparr> index := length tasks,
               started := started s @ [index s ..< length tasks],
               results := results s @ map promise_of (drop (index s) tasks) \<rparr>)"
  using assms
proof (induction tasks s rule: worker.induct)
  case (1 tasks s)
  show ?case
  proof (cases "index s < length tasks")
    case False
    with "1.prems" show ?thesis by (simp add: worker_done)
  next
    case True
    then have d: "drop (index s) tasks = tasks ! index s # drop (Suc (index s)) tasks"
      by (simp add: Cons_nth_drop_Suc)
    with "1.prems"(1) obtain dl out where t: "tasks ! index s = Settles dl out"
      by (cases "tasks ! index s") (auto simp: promise_of_def)
    let ?s2 = "s\<lparr> index := Suc (index s), started := started s @ [index s],
                 results := assign (results s) (index s) \<lparr> settles_at = dl, outcome = out \<rparr> \<rparr>"
    have r2: "results ?s2 = results s @ [promise_of (tasks ! index s)]"
      using "1.prems"(2) t by (simp add: assign_def promise_of_def)
    have p: "\<forall>t \<in> set (drop (index ?s2) tasks). promise_of t \<noteq> None"
      using "1.prems"(1) d by simp
    have "worker tasks ?s2 =
           (Fulfilled (),
            ?s2\<lparr> index := length tasks,
               started := started ?s2 @ [index ?s2 ..< length tasks],
               results := results ?s2 @ map promise_of (drop (index ?s2) tasks) \<rparr>)"
      using "1.IH" [OF True refl refl t] p "1.prems"(2) True r2 by simp
    then show ?thesis
      unfolding worker_Settles [OF True t] using True d r2
      by (simp add: upt_conv_Cons)
  qed
qed

lemma spawn_idle:
  "length tasks \<le> index s \<Longrightarrow> spawn n tasks s = (replicate n (Fulfilled ()), s)"
  by (induction n) (simp_all add: worker_done)

lemma batchCall_workers_all_settle:
  assumes "\<forall>t \<in> set tasks. promise_of t \<noteq> None" and "1 \<le> c"
  shows "batchCall_workers tasks c =
           (replicate (nat (min c (int (length tasks)))) (Fulfilled ()),
            \<lparr> index = length tasks, results = map promise_of tasks,
              started = [0 ..< length tasks] \<rparr>)"
proof (cases "tasks = []")
  case True
  then show ?thesis by (simp add: batchCall_workers_def)
next
  case False
  then have "0 < length tasks" by simp
  with assms(2) have "0 < nat (min c (int (length tasks)))" by simp
  then obtain k where k: "nat (min c (int (length tasks))) = Suc k"
    by (cases "nat (min c (int (length tasks)))") simp_all
  let ?s0 = "\<lparr> index = 0, results = [], started = [] \<rparr> :: 'a sched"
  have w: "worker tasks ?s0 =
           (Fulfilled (),
            \<lparr> index = length tasks, results = map promise_of tasks,
              started = [0 ..< length tasks] \<rparr>)"
    using worker_all_settle [of ?s0 tasks] assms(1) by simp
  show ?thesis
    unfolding batchCall_workers_def k
    by (simp add: w spawn_idle)
qed

lemma Promise_all_fulfilled:
  "outcome (Promise_all ps) = Fulfilled vs \<longleftrightarrow> map outcome ps = map Fulfilled vs"
proof (induction ps arbitrary: vs)
  case Nil
  show ?case by auto
next
  case (Cons p ps)
  show ?case
  proof (cases "outcome p")
    case (Rejected e)
    then show ?thesis
      by (cases vs; cases "outcome (Promise_all ps)") (simp_all add: Let_def)
  next
    case (Fulfilled v)
    show ?thesis
    proof (cases "outcome (Promise_all ps)")
      case r: (Rejected e)
      have "map outcome ps \<noteq> map Fulfilled ws" for ws
        using Cons [of ws] r by simp
      with Fulfilled r show ?thesis
        by (cases vs) (simp_all add: Let_def)
    next
      case f: (Fulfilled ws)
      with Cons [of ws] have ws: "map outcome ps = map Fulfilled ws" by simp
      have "map outcome ps = map Fulfilled us \<longleftrightarrow> us = ws" for us
        using ws by (auto simp: inj_map_eq_map inj_on_def)
      with Fulfilled f show ?thesis
        by (cases vs) (auto simp: Let_def)
    qed
  qed
qed

lemma Promise_all_rejected:
  "(\<exists>e. outcome (Promise_all ps) = Rejected e) \<longleftrightarrow> (\<exists>p \<in> set ps. \<exists>e. outcome p = Rejected e)"
proof -
  have "(\<exists>vs. map outcome ps = map Fulfilled vs) \<longleftrightarrow> (\<forall>p \<in> set ps. \<exists>v. outcome p = Fulfilled v)"
  proof (induction ps)
    case Nil
    show ?case by simp
  next
    case (Cons p ps)
    show ?case
    proof
      assume "\<exists>vs. map outcome (p # ps) = map Fulfilled vs"
      then obtain vs where "map outcome (p # ps) = map Fulfilled vs" ..
      then show "\<forall>q \<in> set (p # ps). \<exists>v. outcome q = Fulfilled v"
        using Cons by (cases vs) auto
    next
      assume a: "\<forall>q \<in> set (p # ps). \<exists>v. outcome q = Fulfilled v"
      then obtain v where v: "outcome p = Fulfilled v" by auto
      from a Cons obtain vs where "map outcome ps = map Fulfilled vs" by auto
      with v have "map outcome (p # ps) = map Fulfilled (v # vs)" by simp
      then show "\<exists>vs. map outcome (p # ps) = map Fulfilled vs" ..
    qed
  qed
  then have "(\<exists>vs. outcome (Promise_all ps) = Fulfilled vs) \<longleftrightarrow> (\<forall>p \<in> set ps. \<exists>v. outcome p = Fulfilled v)"
    by (simp add: Promise_all_fulfilled)
  then show ?thesis
    by (metis outcome.distinct(1) outcome.exhaust)
qed

lemma worker_reaches_throw:
  "index s \<le> i \<Longrightarrow> i < length tasks \<Longrightarrow> tasks ! i = Throws e
   \<Longrightarrow> \<exists>e'. fst (worker tasks s) = Rejected e'"
proof (induction tasks s rule: worker.induct)
  case (1 tasks s)
  then have lt: "index s < length tasks" by simp
  show ?case
  proof (cases "tasks ! index s")
    case (Throws e0)
    with lt show ?thesis by (simp add: worker_Throws)
  next
    case (Settles d out)
    with "1.prems" have "index s \<noteq> i" by auto
    with "1.prems" have "Suc (index s) \<le> i" by simp
    then show ?thesis
      unfolding worker_Settles [OF lt Settles]
      using "1.IH" [OF lt refl refl Settles] "1.prems" by simp
  qed
qed

lemma joined_rejects:
  assumes "Throws e \<in> set tasks" and "1 \<le> c"
  shows "\<exists>e'. outcome (Promise_all (map settled_now (fst (batchCall_workers tasks c))))
               = Rejected e'"
proof -
  from assms(1) obtain i where i: "i < length tasks" "tasks ! i = Throws e"
    by (auto simp: in_set_conv_nth)
  then have "0 < length tasks" by auto
  then have "0 < nat (min c (int (length tasks)))" using assms(2) by simp
  then obtain k where k: "nat (min c (int (length tasks))) = Suc k"
    by (cases "nat (min c (int (length tasks)))") simp_all
  let ?s0 = "\<lparr> index = 0, results = [], started = [] \<rparr> :: 'a sched"
  obtain w s1 where w: "worker tasks ?s0 = (w, s1)" by (cases "worker tasks ?s0") auto
  obtain ws s2 where ws: "spawn k tasks s1 = (ws, s2)" by (cases "spawn k tasks s1") auto
  from worker_reaches_throw [of ?s0 i tasks e] i w obtain e' where e': "w = Rejected e'"
    by auto
  have "\<exists>x. outcome (Promise_all (map settled_now (w # ws))) = Rejected x"
    unfolding Promise_all_rejected by (simp add: e' settled_now_def)
  then show ?thesis
    by (simp add: batchCall_workers_def k w ws)
qed

lemma batchCall_throw_rejects:
  assumes "Throws e \<in> set tasks" and "1 \<le> c"
  shows "\<exists>e'. outcome (batchCall tasks c) = Rejected e'"
proof -
  obtain ws s where r: "batchCall_workers tasks c = (ws, s)"
    by (cases "batchCall_workers tasks c") auto
  from joined_rejects [OF assms] r
  obtain e' where "outcome (Promise_all (map settled_now ws)) = Rejected e'" by auto
  with r show ?thesis by (simp add: batchCall_def)
qed

lemma batchCall_all_settle:
  assumes "\<forall>t \<in> set tasks. promise_of t \<noteq> None" and "1 \<le> c"
  shows "batchCall tasks c = Promise_all (map (element \<circ> promise_of) tasks)"
proof -
  have "outcome (Promise_all (map settled_now (replicate n (Fulfilled ()))))
          = Fulfilled (replicate n ())" for n
    by (simp add: Promise_all_fulfilled settled_now_def)
  then show ?thesis
    by (simp add: batchCall_def batchCall_workers_all_settle [OF assms])
qed

lemma element_rejected:
  "(\<exists>e. outcome (element (promise_of t)) = Rejected e) \<longleftrightarrow> (\<exists>d e. t = Settles d (Rejected e))"
proof (cases t)
  case (Throws e)
  then show ?thesis by (simp add: element_def promise_of_def)
next
  case (Settles d out)
  then show ?thesis by (cases out) (simp_all add: element_def promise_of_def)
qed

lemma batchCall_fulfilled_iff:
  assumes "1 \<le> c"
  shows "(\<exists>vs. outcome (batchCall tasks c) = Fulfilled vs)
           \<longleftrightarrow> (\<forall>t \<in> set tasks. \<exists>d v. t = Settles d (Fulfilled v))"
proof (cases "\<forall>t \<in> set tasks. promise_of t \<noteq> None")
  case False
  then obtain t where t: "t \<in> set tasks" "promise_of t = None" by auto
  obtain e where "t = Throws e"
    using t(2) by (cases t) (simp_all add: promise_of_def)
  with t have "Throws e \<in> set tasks" by simp
  from batchCall_throw_rejects [OF this assms] this show ?thesis by auto
next
  case True
  have rej: "(\<exists>e. outcome (batchCall tasks c) = Rejected e)
          \<longleftrightarrow> (\<exists>t \<in> set tasks. \<exists>d e. t = Settles d (Rejected e))"
    unfolding batchCall_all_settle [OF True assms] Promise_all_rejected
    by (simp add: element_rejected)
  have settles: "\<exists>d out. t = Settles d out" if "t \<in> set tasks" for t
    using True that by (cases t) (auto simp: promise_of_def)
  show ?thesis
  proof
    assume "\<exists>vs. outcome (batchCall tasks c) = Fulfilled vs"
    then have "\<not> (\<exists>e. outcome (batchCall tasks c) = Rejected e)" by auto
    with rej have no: "\<not> (\<exists>t \<in> set tasks. \<exists>d e. t = Settles d (Rejected e))" by simp
    show "\<forall>t \<in> set tasks. \<exists>d v. t = Settles d (Fulfilled v)"
    proof
      fix t
      assume t: "t \<in> set tasks"
      with settles obtain d out where s: "t = Settles d out" by blast
      show "\<exists>d v. t = Settles d (Fulfilled v)"
      proof (cases out)
        case (Fulfilled v)
        with s show ?thesis by simp
      next
        case (Rejected e)
        with s t no show ?thesis by blast
      qed
    qed
  next
    assume "\<forall>t \<in> set tasks. \<exists>d v. t = Settles d (Fulfilled v)"
    then have "\<not> (\<exists>t \<in> set tasks. \<exists>d e. t = Settles d (Rejected e))" by auto
    with rej have "\<not> (\<exists>e. outcome (batchCall tasks c) = Rejected e)" by simp
    then show "\<exists>vs. outcome (batchCall tasks c) = Fulfilled vs"
      by (cases "outcome (batchCall tasks c)") auto
  qed
qed

lemma batchCall_values:
  assumes "1 \<le> c"
  shows "batchCall (map (\<lambda>(d, v). Settles d (Fulfilled v)) dvs) c
           = \<lparr> settles_at = foldr max (map fst dvs) 0,
               outcome = Fulfilled (map (Some \<circ> snd) dvs) \<rparr>"
proof -
  let ?tasks = "map (\<lambda>(d, v). Settles d (Fulfilled v)) dvs"
  have "\<forall>t \<in> set ?tasks. promise_of t \<noteq> None"
    by (auto simp: promise_of_def)
  from batchCall_all_settle [OF this assms]
  have "batchCall ?tasks c = Promise_all (map (element \<circ> promise_of) ?tasks)" .
  also have "\<dots> = \<lparr> settles_at = foldr max (map fst dvs) 0,
               outcome = Fulfilled (map (Some \<circ> snd) dvs) \<rparr>"
    by (induction dvs) (auto simp: element_def promise_of_def Let_def)
  finally show ?thesis .
qed

lemma Promise_all_rejected_mem:
  "outcome (Promise_all ps) = Rejected e \<Longrightarrow> \<exists>p \<in> set ps. outcome p = Rejected e"
proof (induction ps)
  case Nil
  then show ?case by simp
next
  case (Cons p ps)
  then show ?case
    by (cases "outcome p"; cases "outcome (Promise_all ps)")
       (auto simp: Let_def split: if_splits)
qed

lemma worker_rejected_mem:
  "fst (worker tasks s) = Rejected e \<Longrightarrow> Throws e \<in> set tasks"
proof (induction tasks s rule: worker.induct)
  case (1 tasks s)
  show ?case
  proof (cases "index s < length tasks")
    case False
    with "1.prems" show ?thesis by (simp add: worker_done)
  next
    case True
    show ?thesis
    proof (cases "tasks ! index s")
      case (Throws e0)
      with True "1.prems" have "e0 = e" by (simp add: worker_Throws)
      with Throws True show ?thesis by (metis nth_mem)
    next
      case (Settles d out)
      from "1.prems" show ?thesis
        unfolding worker_Settles [OF True Settles]
        using "1.IH" [OF True refl refl Settles] by simp
    qed
  qed
qed

lemma spawn_rejected_mem:
  "Rejected e \<in> set (fst (spawn n tasks s)) \<Longrightarrow> Throws e \<in> set tasks"
proof (induction n arbitrary: s)
  case 0
  then show ?case by simp
next
  case (Suc n)
  obtain w s1 where w: "worker tasks s = (w, s1)" by (cases "worker tasks s") auto
  obtain ws s2 where ws: "spawn n tasks s1 = (ws, s2)" by (cases "spawn n tasks s1") auto
  from Suc.prems have "w = Rejected e \<or> Rejected e \<in> set ws" by (auto simp: w ws)
  then show ?case
  proof
    assume "w = Rejected e"
    with w worker_rejected_mem [of tasks s e] show ?thesis by simp
  next
    assume "Rejected e \<in> set ws"
    with ws Suc.IH [of s1] show ?thesis by simp
  qed
qed

lemma element_rejected_mem:
  "outcome (element (promise_of t)) = Rejected e \<Longrightarrow> \<exists>d. t = Settles d (Rejected e)"
proof (cases t)
  case (Throws e0)
  assume "outcome (element (promise_of t)) = Rejected e"
  with Throws show ?thesis by (simp add: element_def promise_of_def)
next
  case (Settles d out)
  assume "outcome (element (promise_of t)) = Rejected e"
  with Settles show ?thesis by (cases out) (simp_all add: element_def promise_of_def)
qed

lemma batchCall_rejected_mem:
  assumes "outcome (batchCall tasks c) = Rejected e"
  shows "Throws e \<in> set tasks \<or> (\<exists>d. Settles d (Rejected e) \<in> set tasks)"
proof -
  have c: "1 \<le> c"
  proof (rule ccontr)
    assume "\<not> 1 \<le> c"
    then have "nat (min c (int (length tasks))) = 0" by simp
    with assms show False
      by (simp add: batchCall_def batchCall_workers_def)
  qed
  obtain ws s where r: "batchCall_workers tasks c = (ws, s)"
    by (cases "batchCall_workers tasks c") auto
  show ?thesis
  proof (cases "outcome (Promise_all (map settled_now ws))")
    case (Rejected e')
    with assms r have "e' = e" by (simp add: batchCall_def)
    with Rejected Promise_all_rejected_mem [of "map settled_now ws" e]
    have "Rejected e \<in> set ws" by (auto simp: settled_now_def)
    with r have "Rejected e \<in> set (fst (spawn (nat (min c (int (length tasks)))) tasks
                    \<lparr> index = 0, results = [], started = [] \<rparr>))"
      by (simp add: batchCall_workers_def)
    from spawn_rejected_mem [OF this] show ?thesis ..
  next
    case (Fulfilled us)
    have all: "\<forall>t \<in> set tasks. promise_of t \<noteq> None"
    proof
      fix t
      assume t: "t \<in> set tasks"
      show "promise_of t \<noteq> None"
      proof (cases t)
        case (Throws e0)
        with t joined_rejects [of e0 tasks c] c r Fulfilled show ?thesis by simp
      next
        case (Settles d out)
        then show ?thesis by (simp add: promise_of_def)
      qed
    qed
    from assms have "outcome (Promise_all (map (element \<circ> promise_of) tasks)) = Rejected e"
      by (simp add: batchCall_all_settle [OF all c])
    from Promise_all_rejected_mem [OF this]
    obtain t where t: "t \<in> set tasks" "outcome (element (promise_of t)) = Rejected e" by auto
    from element_rejected_mem [OF t(2)] t(1) show ?thesis by auto
  qed
qed

lemma filter_indices:
  "length (filter (\<lambda>i. P (xs ! i)) [0 ..< length xs]) = length (filter P xs)"
proof -
  have "filter P xs = filter P (map ((!) xs) [0 ..< length xs])"
    by (simp add: map_nth)
  also have "\<dots> = map ((!) xs) (filter (P \<circ> (!) xs) [0 ..< length xs])"
    by (simp add: filter_map)
  finally show ?thesis by (simp add: comp_def)
qed

lemma in_flight_all_settle:
  assumes "\<forall>t \<in> set tasks. promise_of t \<noteq> None" and "1 \<le> c"
  shows "in_flight tasks c t = length (filter (\<lambda>x. pending_at t (promise_of x)) tasks)"
proof -
  have "in_flight tasks c t
          = length (filter (\<lambda>i. pending_at t (at_index (map promise_of tasks) i))
                     [0 ..< length tasks])"
    by (simp add: in_flight_def batchCall_workers_all_settle [OF assms])
  also have "\<dots> = length (filter (\<lambda>i. pending_at t (promise_of (tasks ! i)))
                     [0 ..< length tasks])"
    by (rule arg_cong [where f = length], rule filter_cong) (simp_all add: at_index_def)
  also have "\<dots> = length (filter (\<lambda>x. pending_at t (promise_of x)) tasks)"
    by (rule filter_indices)
  finally show ?thesis .
qed

text \<open>
  C1 fails on the code. The loop of \<open>worker\<close> stores the promise of a task and goes on
  without awaiting it, so the first worker calls every task before any of them has
  settled, whatever the limit. With three tasks that take 5, 1 and 3 instants and the
  limit 1, three tasks are in flight at instant 0.
\<close>

theorem batchCall_in_flight_exceeds:
  "in_flight [Settles 5 (Fulfilled (10::nat)), Settles 1 (Fulfilled 20), Settles 3 (Fulfilled 30)] 1 0 = 3"
  by code_simp

text \<open>
  More generally, when every task takes at least one instant, all of them are in flight
  at instant 0, for every limit from 1 on.
\<close>

lemma in_flight_unbounded:
  assumes "1 \<le> c"
  shows "in_flight (map (\<lambda>(d, v). Settles (Suc d) (Fulfilled v)) dvs) c 0 = length dvs"
proof -
  let ?tasks = "map (\<lambda>(d, v). Settles (Suc d) (Fulfilled v)) dvs"
  have "\<forall>t \<in> set ?tasks. promise_of t \<noteq> None"
    by (auto simp: promise_of_def)
  from in_flight_all_settle [OF this assms, of 0]
  show ?thesis
    by (simp add: filter_map comp_def pending_at_def promise_of_def split_def)
qed

lemma spawn_index_le:
  "index s \<le> length tasks \<Longrightarrow> index (snd (spawn n tasks s)) \<le> length tasks"
proof (induction n arbitrary: s)
  case 0
  then show ?case by simp
next
  case (Suc n)
  obtain w s1 where w: "worker tasks s = (w, s1)" by (cases "worker tasks s") auto
  obtain ws s2 where ws: "spawn n tasks s1 = (ws, s2)" by (cases "spawn n tasks s1") auto
  from worker_index_le [OF Suc.prems] w have "index s1 \<le> length tasks" by simp
  from Suc.IH [OF this] ws show ?case by (simp add: w)
qed

text \<open>
  C2, as amended. For every limit from 1 on and every list of tasks that all fulfil,
  whatever time each takes, \<open>batchCall\<close> is fulfilled with the list of their values in
  the order of the tasks, and every task is called exactly once, in the order of the
  list. For every list of tasks and every limit, no task is called twice and only
  indices of the list are called.
\<close>

theorem batchCall_aligned:
  assumes "1 \<le> c"
  shows "outcome (batchCall (map (\<lambda>(d, v). Settles d (Fulfilled v)) dvs) c)
           = Fulfilled (map (Some \<circ> snd) dvs)
         \<and> started (snd (batchCall_workers (map (\<lambda>(d, v). Settles d (Fulfilled v)) dvs) c))
           = [0 ..< length dvs]
         \<and> distinct (started (snd (batchCall_workers tasks k)))
         \<and> set (started (snd (batchCall_workers tasks k))) \<subseteq> {0 ..< length tasks}"
proof -
  let ?tasks = "map (\<lambda>(d, v). Settles d (Fulfilled v)) dvs"
  have all: "\<forall>t \<in> set ?tasks. promise_of t \<noteq> None"
    by (auto simp: promise_of_def)
  have 1: "outcome (batchCall ?tasks c) = Fulfilled (map (Some \<circ> snd) dvs)"
    by (simp add: batchCall_values [OF assms])
  have 2: "started (snd (batchCall_workers ?tasks c)) = [0 ..< length dvs]"
    by (simp add: batchCall_workers_all_settle [OF all assms])
  have 3: "distinct (started (snd (batchCall_workers tasks k)))"
    by (simp add: batchCall_workers_started)
  have "index (snd (batchCall_workers tasks k)) \<le> length tasks"
    by (simp add: batchCall_workers_def spawn_index_le)
  then have 4: "set (started (snd (batchCall_workers tasks k))) \<subseteq> {0 ..< length tasks}"
    by (auto simp: batchCall_workers_started)
  from 1 2 3 4 show ?thesis by blast
qed

text \<open>Three tasks that finish in the order 2, 3, 1, with the limit 2.\<close>

theorem batchCall_aligned_witness:
  "(1::int) \<le> 2
   \<and> outcome (batchCall [Settles 5 (Fulfilled (10::nat)), Settles 1 (Fulfilled 20),
                           Settles 3 (Fulfilled 30)] 2)
       = Fulfilled [Some 10, Some 20, Some 30]
   \<and> started (snd (batchCall_workers [Settles 5 (Fulfilled (10::nat)), Settles 1 (Fulfilled 20),
                           Settles 3 (Fulfilled 30)] 2))
       = [0, 1, 2]"
proof -
  have c: "(1::int) \<le> 2" by simp
  from batchCall_aligned [OF c, where dvs = "[(5, 10::nat), (1, 20), (3, 30)]"
      and tasks = "[] :: nat task list" and k = 0]
  show ?thesis by (simp add: upt_conv_Cons)
qed

text \<open>
  C2 as the spec states it, for every list of tasks, fails: when the second of three
  tasks rejects, \<open>batchCall\<close> is rejected and returns no list.
\<close>

theorem batchCall_rejects_without_list:
  "outcome (batchCall [Settles 5 (Fulfilled (10::nat)), Settles 1 (Rejected (Error ''boom'')),
                       Settles 3 (Fulfilled 30)] 2)
     = Rejected (Error ''boom'')"
  by code_simp

text \<open>
  C3, as amended. \<open>batchCall\<close> has no handling of failures. For every limit from 1 on it
  is fulfilled exactly when every task returns a promise that fulfils. When some task
  throws or rejects, \<open>batchCall\<close> is rejected with the error of a failing task: there is
  no list and no sentinel. When no task throws at the call, all tasks are still called.
  The tasks that \<open>main\<close> builds never throw and never reject.
\<close>

theorem batchCall_failure:
  assumes "1 \<le> c"
  shows "((\<exists>vs. outcome (batchCall tasks c) = Fulfilled vs)
            \<longleftrightarrow> (\<forall>t \<in> set tasks. \<exists>d v. t = Settles d (Fulfilled v)))
         \<and> ((\<exists>t \<in> set tasks. (\<exists>e. t = Throws e) \<or> (\<exists>d e. t = Settles d (Rejected e)))
            \<longrightarrow> (\<exists>e. outcome (batchCall tasks c) = Rejected e
                    \<and> (Throws e \<in> set tasks \<or> (\<exists>d. Settles d (Rejected e) \<in> set tasks))))
         \<and> ((\<forall>t \<in> set tasks. \<exists>d out. t = Settles d out)
            \<longrightarrow> started (snd (batchCall_workers tasks c)) = [0 ..< length tasks])
         \<and> (\<exists>d v. task_of rt url = Settles d (Fulfilled v))"
proof -
  note iff = batchCall_fulfilled_iff [OF assms, of tasks]
  have rej: "\<exists>e. outcome (batchCall tasks c) = Rejected e
                    \<and> (Throws e \<in> set tasks \<or> (\<exists>d. Settles d (Rejected e) \<in> set tasks))"
    if "\<exists>t \<in> set tasks. (\<exists>e. t = Throws e) \<or> (\<exists>d e. t = Settles d (Rejected e))"
  proof -
    from that have "\<not> (\<forall>t \<in> set tasks. \<exists>d v. t = Settles d (Fulfilled v))" by auto
    with iff obtain e where e: "outcome (batchCall tasks c) = Rejected e"
      by (cases "outcome (batchCall tasks c)") auto
    from batchCall_rejected_mem [OF e] e show ?thesis by blast
  qed
  have all: "started (snd (batchCall_workers tasks c)) = [0 ..< length tasks]"
    if "\<forall>t \<in> set tasks. \<exists>d out. t = Settles d out"
  proof -
    from that have "\<forall>t \<in> set tasks. promise_of t \<noteq> None"
      by (auto simp: promise_of_def)
    from batchCall_workers_all_settle [OF this assms] show ?thesis by simp
  qed
  have task: "\<exists>d v. task_of rt url = Settles d (Fulfilled v)"
    by (cases "taskFn rt url") (simp add: task_of_def)
  from iff rej all task show ?thesis by blast
qed

text \<open>A task that rejects after 2 instants and one that fulfils, with the limit 1.\<close>

theorem batchCall_failure_witness:
  "(1::int) \<le> 1
   \<and> outcome (batchCall [Settles 2 (Rejected (Error ''timeout'')), Settles 4 (Fulfilled (7::nat))] 1)
       = Rejected (Error ''timeout'')
   \<and> started (snd (batchCall_workers
         [Settles 2 (Rejected (Error ''timeout'')), Settles 4 (Fulfilled (7::nat))] 1)) = [0, 1]"
proof -
  have c: "(1::int) \<le> 1" by simp
  let ?tasks = "[Settles 2 (Rejected (Error ''timeout'')), Settles 4 (Fulfilled (7::nat))]"
  from batchCall_failure [OF c, of ?tasks]
  obtain e where "outcome (batchCall ?tasks 1) = Rejected e"
    and "Throws e \<in> set ?tasks \<or> (\<exists>d. Settles d (Rejected e) \<in> set ?tasks)"
    and "started (snd (batchCall_workers ?tasks 1)) = [0 ..< length ?tasks]"
    by auto
  then show ?thesis by (auto simp: upt_conv_Cons)
qed

text \<open>
  C3 as the spec states it fails: the rejection of the first task is the result of
  \<open>batchCall\<close>; no sentinel takes its place. With the limit 1, a first task that
  throws at the call ends the only worker, and the second task is never called.
\<close>

theorem batchCall_propagates:
  "outcome (batchCall [Settles 2 (Rejected (Error ''timeout'')), Settles 4 (Fulfilled (7::nat))] 1)
     = Rejected (Error ''timeout'')
   \<and> outcome (batchCall [Throws (Error ''thrown''), Settles 4 (Fulfilled (7::nat))] 1)
     = Rejected (Error ''thrown'')
   \<and> started (snd (batchCall_workers
         [Throws (Error ''thrown''), Settles 4 (Fulfilled (7::nat))] 1)) = [0]"
  by code_simp

subsection \<open>The main loop\<close>

lemma batchSize_of_range: "1 \<le> batchSize_of b \<and> batchSize_of b \<le> 128"
  by (cases b) (simp_all add: batchSize_of_def BATCH_SIZE_def)

lemma batchSize_ge1: "1 \<le> batchSize (parseArgs argv)"
  using batchSize_of_range [of "batch_of argv"] by (simp add: parseArgs_def)

lemma results_loop_step_absent:
  "idx < length urls \<Longrightarrow> urls ! idx = Some u \<Longrightarrow> \<forall>r. at_index outs idx \<noteq> Some (Some r)
   \<Longrightarrow> results_loop urls outs idx rpcs st =
       results_loop urls outs (Suc idx) rpcs (st\<lparr> totalRpcChecked := totalRpcChecked st + 1 \<rparr>)"
  by (subst results_loop.simps)
     (auto simp: Let_def shortUrl_def split: option.splits)

lemma results_loop_step_present:
  "idx < length urls \<Longrightarrow> urls ! idx = Some u \<Longrightarrow> at_index outs idx = Some (Some r)
   \<Longrightarrow> results_loop urls outs idx rpcs st =
       results_loop urls outs (Suc idx) (rpcs @ [r])
         (st\<lparr> totalRpcChecked := totalRpcChecked st + 1,
              totalWorking := totalWorking st + 1 \<rparr>)"
  by (subst results_loop.simps) (simp add: Let_def shortUrl_def)

lemma results_loop_step_throw:
  "idx < length urls \<Longrightarrow> urls ! idx = None
   \<Longrightarrow> results_loop urls outs idx rpcs st =
       Inl (TypeError ''Cannot read properties of undefined (reading length)'',
            st\<lparr> totalRpcChecked := totalRpcChecked st + 1 \<rparr>)"
  by (subst results_loop.simps) (simp add: Let_def shortUrl_def)

lemma results_loop_done:
  "length urls \<le> idx \<Longrightarrow> results_loop urls outs idx rpcs st = Inr (rpcs, st)"
  by (subst results_loop.simps) simp

lemma results_loop_collects:
  "results_loop urls outs idx rpcs st = Inr (rpcs', st') \<Longrightarrow>
   rpcs' = rpcs @ concat (map (present_at outs) [idx ..< length urls])
   \<and> files st' = files st \<and> net st' = net st \<and> merged st' = merged st
   \<and> written st' = written st \<and> skipped st' = skipped st \<and> chainIndex st' = chainIndex st"
proof (induction "length urls - idx" arbitrary: idx rpcs st)
  case 0
  then show ?case by (simp add: results_loop_done)
next
  case (Suc n)
  then have lt: "idx < length urls" and n: "n = length urls - Suc idx" by simp_all
  then have upt: "[idx ..< length urls] = idx # [Suc idx ..< length urls]"
    by (simp add: upt_conv_Cons)
  show ?case
  proof (cases "urls ! idx")
    case None
    with lt Suc.prems show ?thesis by (simp add: results_loop_step_throw)
  next
    case (Some u)
    show ?thesis
    proof (cases "\<exists>r. at_index outs idx = Some (Some r)")
      case True
      then obtain r where r: "at_index outs idx = Some (Some r)" ..
      from Suc.prems have "results_loop urls outs (Suc idx) (rpcs @ [r])
         (st\<lparr> totalRpcChecked := totalRpcChecked st + 1,
              totalWorking := totalWorking st + 1 \<rparr>) = Inr (rpcs', st')"
        by (simp add: results_loop_step_present [OF lt Some r])
      from Suc.hyps(1) [OF n this] show ?thesis
        by (simp add: upt present_at_def r)
    next
      case False
      then have no: "\<forall>r. at_index outs idx \<noteq> Some (Some r)" by simp
      from Suc.prems have "results_loop urls outs (Suc idx) rpcs
         (st\<lparr> totalRpcChecked := totalRpcChecked st + 1 \<rparr>) = Inr (rpcs', st')"
        by (simp add: results_loop_step_absent [OF lt Some no])
      from Suc.hyps(1) [OF n this] no show ?thesis
        by (auto simp: upt present_at_def split: option.splits)
    qed
  qed
qed

lemma results_loop_throws:
  "(\<exists>x. results_loop urls outs idx rpcs st = Inl x) \<longleftrightarrow> (\<exists>i \<ge> idx. i < length urls \<and> urls ! i = None)"
proof (induction "length urls - idx" arbitrary: idx rpcs st)
  case 0
  then show ?case by (simp add: results_loop_done)
next
  case (Suc n)
  then have lt: "idx < length urls" and n: "n = length urls - Suc idx" by simp_all
  show ?case
  proof (cases "urls ! idx")
    case None
    with lt show ?thesis by (auto simp: results_loop_step_throw)
  next
    case (Some u)
    then have shift: "(\<exists>i \<ge> idx. i < length urls \<and> urls ! i = None)
        \<longleftrightarrow> (\<exists>i \<ge> Suc idx. i < length urls \<and> urls ! i = None)"
      by (metis Suc_leI le_neq_implies_less Suc_leD option.distinct(1))
    show ?thesis
    proof (cases "\<exists>r. at_index outs idx = Some (Some r)")
      case True
      then obtain r where r: "at_index outs idx = Some (Some r)" ..
      show ?thesis
        unfolding shift results_loop_step_present [OF lt Some r]
        by (rule Suc.hyps(1) [OF n])
    next
      case False
      then have no: "\<forall>r. at_index outs idx \<noteq> Some (Some r)" by simp
      show ?thesis
        unfolding shift results_loop_step_absent [OF lt Some no]
        by (rule Suc.hyps(1) [OF n])
    qed
  qed
qed

lemma task_of_fulfilling:
  "map (task_of rt) urls
     = map (\<lambda>(d, v). Settles d (Fulfilled v))
         (map (\<lambda>u. (snd (snd (taskFn rt u)), fst (taskFn rt u))) urls)"
  by (simp add: task_of_def split_def)

lemma check_urls_eq:
  assumes "1 \<le> c"
  shows "check_urls rt c urls st =
           results_loop urls (map (\<lambda>u. Some (fst (taskFn rt u))) urls) 0 []
             (st\<lparr> net := net st @ concat (map (calls_of rt) urls) \<rparr>)"
proof -
  let ?dvs = "map (\<lambda>u. (snd (snd (taskFn rt u)), fst (taskFn rt u))) urls"
  have all: "\<forall>t \<in> set (map (task_of rt) urls). promise_of t \<noteq> None"
    by (auto simp: task_of_def promise_of_def split_def)
  have w: "started (snd (batchCall_workers (map (task_of rt) urls) c)) = [0 ..< length urls]"
    by (simp add: batchCall_workers_all_settle [OF all assms])
  have calls: "concat (map (\<lambda>i. calls_of rt (urls ! i)) [0 ..< length urls])
                 = concat (map (calls_of rt) urls)"
    by (rule arg_cong [where f = concat], rule nth_equalityI) simp_all
  have b: "outcome (batchCall (map (task_of rt) urls) c)
             = Fulfilled (map (\<lambda>u. Some (fst (taskFn rt u))) urls)"
    unfolding task_of_fulfilling batchCall_values [OF assms] by (simp add: comp_def)
  show ?thesis
    using w by (simp add: check_urls_def split_def b calls)
qed

lemma taskFn_url: "fst (taskFn rt u) = Some r \<Longrightarrow> r_url r = u"
  by (auto simp: taskFn_cases split: if_splits)

lemma present_at_probe:
  "i < length urls \<Longrightarrow>
   present_at (map (\<lambda>u. Some (fst (taskFn rt u))) urls) i
     = (case fst (taskFn rt (urls ! i)) of None \<Rightarrow> [] | Some r \<Rightarrow> [r])"
  by (simp add: present_at_def at_index_def split: option.splits)

lemma collected_map_filter:
  "concat (map (present_at (map (\<lambda>u. Some (fst (taskFn rt u))) urls)) [0 ..< length urls])
     = List.map_filter (\<lambda>u. fst (taskFn rt u)) urls"
proof -
  have "map (present_at (map (\<lambda>u. Some (fst (taskFn rt u))) urls)) [0 ..< length urls]
          = map (\<lambda>u. case fst (taskFn rt u) of None \<Rightarrow> [] | Some r \<Rightarrow> [r]) urls"
    by (rule nth_equalityI) (simp_all add: present_at_probe)
  moreover have "concat (map (\<lambda>u. case f u of None \<Rightarrow> [] | Some r \<Rightarrow> [r]) xs)
                   = List.map_filter f xs" for f :: "'a \<Rightarrow> 'b option" and xs
    by (induction xs) (simp_all split: option.splits)
  ultimately show ?thesis by simp
qed

lemma map_filter_urls:
  "map r_url (List.map_filter (\<lambda>u. fst (taskFn rt u)) urls)
     = filter (\<lambda>u. fst (taskFn rt u) \<noteq> None) urls"
  by (induction urls) (auto simp: taskFn_url split: option.splits)

lemma check_urls_result:
  assumes "1 \<le> c" and "check_urls rt c urls st = Inr (rpcs, st')"
  shows "rpcs = List.map_filter (\<lambda>u. fst (taskFn rt u)) urls
         \<and> files st' = files st \<and> merged st' = merged st
         \<and> net st' = net st @ concat (map (calls_of rt) urls)
         \<and> written st' = written st \<and> skipped st' = skipped st"
  using results_loop_collects [OF assms(2) [unfolded check_urls_eq [OF assms(1)]]]
  by (simp add: collected_map_filter)

lemma main_chain_fresh:
  assumes "c_chainId ch = Some chainId" and "chainId \<noteq> IdStr []"
    and "\<not> skipExisting a \<or> files st (path_join rt (outDir a) (String chainId @ ''.json'')) = None"
  shows "main_chain rt a ch st =
     (let st0 = st\<lparr> chainIndex := chainIndex st + 1 \<rparr>;
          name = (case c_name ch of None \<Rightarrow> ''unknown'' | Some n \<Rightarrow> n);
          filePath = path_join rt (outDir a) (String chainId @ ''.json'')
      in if getRpcs ch = [] then
           Inr (write_payload rt filePath \<lparr> p_name = name, p_chainId = chainId, p_rpcs = [] \<rparr> st0)
         else (case check_urls rt (batchSize a) (getRpcs ch) st0 of
                 Inl thrown \<Rightarrow> Inl thrown
               | Inr (rpcs, st2) \<Rightarrow>
                   Inr (write_payload rt filePath
                          \<lparr> p_name = name, p_chainId = chainId, p_rpcs = rpcs \<rparr> st2)))"
  using assms by (auto simp: main_chain_def Let_def)

lemma main_chain_skip:
  assumes "c_chainId ch = Some chainId" and "chainId \<noteq> IdStr []"
    and "skipExisting a"
    and "files st (path_join rt (outDir a) (String chainId @ ''.json'')) = Some raw"
  shows "main_chain rt a ch st
           = reuse_existing rt chainId raw (st\<lparr> chainIndex := chainIndex st + 1 \<rparr>)"
  using assms by (simp add: main_chain_def Let_def)

text \<open>
  C6. When the loop body has processed a chain that has an identifier and is not
  skipped, the payload written to the file of the chain and stored in the merged object
  holds, in the order of the candidates, the outcome of every candidate whose probe
  outcome is present and nothing else: the URLs of its list are the candidates filtered
  by "the outcome is present", a subsequence of the candidates.
\<close>

theorem main_chain_rpcs:
  assumes run: "main_chain rt (parseArgs argv) ch st = Inr st'"
    and id: "c_chainId ch = Some chainId" "chainId \<noteq> IdStr []"
    and fresh: "\<not> skipExisting (parseArgs argv)
      \<or> files st (path_join rt (outDir (parseArgs argv)) (String chainId @ ''.json'')) = None"
  shows "\<exists>p. map_of (merged st') (String chainId) = Some (Built p)
           \<and> files st' (path_join rt (outDir (parseArgs argv)) (String chainId @ ''.json''))
               = Some (JSON_stringify rt p)
           \<and> p_chainId p = chainId
           \<and> p_rpcs p = List.map_filter (\<lambda>u. fst (taskFn rt u)) (getRpcs ch)
           \<and> map r_url (p_rpcs p) = filter (\<lambda>u. fst (taskFn rt u) \<noteq> None) (getRpcs ch)
           \<and> subseq (map r_url (p_rpcs p)) (getRpcs ch)"
proof -
  let ?a = "parseArgs argv"
  let ?path = "path_join rt (outDir ?a) (String chainId @ ''.json'')"
  let ?st0 = "st\<lparr> chainIndex := chainIndex st + 1 \<rparr>"
  let ?name = "case c_name ch of None \<Rightarrow> ''unknown'' | Some n \<Rightarrow> n"
  let ?found = "List.map_filter (\<lambda>u. fst (taskFn rt u)) (getRpcs ch)"
  note unfolded = main_chain_fresh [OF id fresh]
  have "\<exists>st2. st' = write_payload rt ?path
                 \<lparr> p_name = ?name, p_chainId = chainId, p_rpcs = ?found \<rparr> st2"
  proof (cases "getRpcs ch = []")
    case True
    with run unfolded show ?thesis
      by (auto simp: Let_def)
  next
    case False
    with run unfolded obtain rpcs st2
      where c: "check_urls rt (batchSize ?a) (getRpcs ch) ?st0 = Inr (rpcs, st2)"
        and s: "st' = write_payload rt ?path
                 \<lparr> p_name = ?name, p_chainId = chainId, p_rpcs = rpcs \<rparr> st2"
      by (auto simp: Let_def split: sum.splits)
    from check_urls_result [OF batchSize_ge1 c] s show ?thesis by auto
  qed
  then obtain st2 where s: "st' = write_payload rt ?path
                 \<lparr> p_name = ?name, p_chainId = chainId, p_rpcs = ?found \<rparr> st2" ..
  let ?p = "\<lparr> p_name = ?name, p_chainId = chainId, p_rpcs = ?found \<rparr>"
  have 1: "map_of (merged st') (String chainId) = Some (Built ?p)"
    by (simp add: s write_payload_def update_conv')
  have 2: "files st' ?path = Some (JSON_stringify rt ?p)"
    by (simp add: s write_payload_def)
  have 3: "map r_url (p_rpcs ?p) = filter (\<lambda>u. fst (taskFn rt u) \<noteq> None) (getRpcs ch)"
    by (simp add: map_filter_urls)
  then have 4: "subseq (map r_url (p_rpcs ?p)) (getRpcs ch)"
    by simp
  from 1 2 3 4 show ?thesis
    by (intro exI [of _ ?p]) simp
qed

text \<open>
  In the example the candidates are \<open>a\<close>, \<open>b\<close>, \<open>c\<close> and the outcomes are absent,
  present, present: the list written for the chain is \<open>b\<close>, \<open>c\<close>.
\<close>

theorem main_chain_rpcs_witness:
  "main_chain demo_env (parseArgs [''node'', ''index.js'']) demo_chain (init_run Map.empty)
     = Inr (projr (main_chain demo_env (parseArgs [''node'', ''index.js'']) demo_chain
                     (init_run Map.empty)))
   \<and> c_chainId demo_chain = Some (IdNum 1)
   \<and> getRpcs demo_chain = [Some url_a, Some url_b, Some url_c]
   \<and> map (\<lambda>u. fst (taskFn demo_env u) \<noteq> None) (getRpcs demo_chain) = [False, True, True]
   \<and> (\<exists>p. map_of (merged (projr (main_chain demo_env (parseArgs [''node'', ''index.js''])
                                   demo_chain (init_run Map.empty)))) ''1''
              = Some (Built p)
            \<and> map r_url (p_rpcs p) = [Some url_b, Some url_c])"
proof -
  let ?a = "parseArgs [''node'', ''index.js'']"
  let ?r = "main_chain demo_env ?a demo_chain (init_run Map.empty)"
  have "\<not> isl ?r" by code_simp
  then have run: "?r = Inr (projr ?r)" by simp
  have id: "c_chainId demo_chain = Some (IdNum 1)" "IdNum 1 \<noteq> IdStr []"
    by (simp_all add: demo_chain_def)
  have fresh: "\<not> skipExisting ?a
      \<or> files (init_run Map.empty) (path_join demo_env (outDir ?a) (String (IdNum 1) @ ''.json''))
          = None"
    by (simp add: init_run_def)
  have urls: "getRpcs demo_chain = [Some url_a, Some url_b, Some url_c]"
    by code_simp
  have present: "map (\<lambda>u. fst (taskFn demo_env u) \<noteq> None) (getRpcs demo_chain)
                   = [False, True, True]"
    by code_simp
  have kept: "filter (\<lambda>u. fst (taskFn demo_env u) \<noteq> None) (getRpcs demo_chain)
                = [Some url_b, Some url_c]"
    by code_simp
  have key: "String (IdNum 1) = ''1''"
    by code_simp
  from main_chain_rpcs [OF run id fresh]
  obtain p where m: "map_of (merged (projr ?r)) (String (IdNum 1)) = Some (Built p)"
    and u: "map r_url (p_rpcs p)
              = filter (\<lambda>u. fst (taskFn demo_env u) \<noteq> None) (getRpcs demo_chain)"
    by blast
  from m have m': "map_of (merged (projr ?r)) ''1'' = Some (Built p)"
    by (simp only: key)
  from u have u': "map r_url (p_rpcs p) = [Some url_b, Some url_c]"
    by (simp only: kept)
  from m' u' have "\<exists>p. map_of (merged (projr ?r)) ''1'' = Some (Built p)
            \<and> map r_url (p_rpcs p) = [Some url_b, Some url_c]"
    by (intro exI [of _ p] conjI)
  with run id(1) urls present show ?thesis by (intro conjI)
qed

text \<open>
  C7. In skip-existing mode, for a chain whose file exists, the loop body makes no
  network call and writes no file. When the content of the file parses, the member of
  the merged object for the chain is the parsed content and the chain is counted as
  skipped. When it does not parse, \<open>JSON.parse\<close> throws; also then no network call has
  been made and nothing has been written.
\<close>

theorem main_chain_skip_existing:
  assumes "skipExisting a" and "c_chainId ch = Some chainId" and "chainId \<noteq> IdStr []"
    and "files st (path_join rt (outDir a) (String chainId @ ''.json'')) = Some raw"
  shows "(\<forall>existing. JSON_parse rt raw = Some existing \<longrightarrow>
            (\<exists>st'. main_chain rt a ch st = Inr st'
               \<and> net st' = net st \<and> files st' = files st \<and> written st' = written st
               \<and> skipped st' = skipped st + 1
               \<and> map_of (merged st') (String chainId) = Some (Existing existing)))
         \<and> (JSON_parse rt raw = None \<longrightarrow>
              (\<exists>err st'. main_chain rt a ch st = Inl (err, st')
                 \<and> net st' = net st \<and> files st' = files st \<and> merged st' = merged st))"
  unfolding main_chain_skip [OF assms(2,3,1,4)]
  by (simp add: reuse_existing_def update_conv')

text \<open>
  In the example, with \<open>--skip-existing\<close> and a file for chain 1 in the output directory,
  the chain is skipped: no call, no write, and the merged object holds the parsed file.
\<close>

theorem main_chain_skip_existing_witness:
  "skipExisting (parseArgs [''node'', ''index.js'', ''--skip-existing''])
   \<and> c_chainId demo_chain = Some (IdNum 1)
   \<and> path_join demo_env (outDir (parseArgs [''node'', ''index.js'', ''--skip-existing'']))
        (String (IdNum 1) @ ''.json'') = ''./rpcs/1.json''
   \<and> JSON_parse demo_env old_file
       = Some (JObj [(''name'', JStr ''Old''), (''chainId'', JNum 1), (''rpcs'', JArr [])])
   \<and> (\<exists>st'. main_chain demo_env (parseArgs [''node'', ''index.js'', ''--skip-existing''])
               demo_chain (init_run [''./rpcs/1.json'' \<mapsto> old_file]) = Inr st'
          \<and> net st' = [] \<and> files st' = [''./rpcs/1.json'' \<mapsto> old_file] \<and> written st' = 0
          \<and> skipped st' = 1
          \<and> map_of (merged st') ''1''
              = Some (Existing (JObj [(''name'', JStr ''Old''), (''chainId'', JNum 1),
                                      (''rpcs'', JArr [])])))"
proof -
  let ?a = "parseArgs [''node'', ''index.js'', ''--skip-existing'']"
  let ?st = "init_run [''./rpcs/1.json'' \<mapsto> old_file]"
  have skip: "skipExisting ?a" by code_simp
  have id: "c_chainId demo_chain = Some (IdNum 1)" "IdNum 1 \<noteq> IdStr []"
    by (simp_all add: demo_chain_def)
  have key: "String (IdNum 1) = ''1''" by code_simp
  have path: "path_join demo_env (outDir ?a) (String (IdNum 1) @ ''.json'') = ''./rpcs/1.json''"
    by code_simp
  have content: "files ?st (path_join demo_env (outDir ?a) (String (IdNum 1) @ ''.json''))
                = Some old_file"
    unfolding path by (simp add: init_run_def)
  have parse: "JSON_parse demo_env old_file
       = Some (JObj [(''name'', JStr ''Old''), (''chainId'', JNum 1), (''rpcs'', JArr [])])"
    by (simp add: demo_env_def old_file_def)
  from main_chain_skip_existing [OF skip id content] parse
  obtain st' where r: "main_chain demo_env ?a demo_chain ?st = Inr st'"
    and e: "net st' = net ?st" "files st' = files ?st" "written st' = written ?st"
      "skipped st' = skipped ?st + 1"
    and m: "map_of (merged st') (String (IdNum 1))
          = Some (Existing (JObj [(''name'', JStr ''Old''), (''chainId'', JNum 1),
                                  (''rpcs'', JArr [])]))"
    by blast
  from m have m': "map_of (merged st') ''1''
          = Some (Existing (JObj [(''name'', JStr ''Old''), (''chainId'', JNum 1),
                                  (''rpcs'', JArr [])]))"
    by (simp only: key)
  from r e m' have "\<exists>st'. main_chain demo_env ?a demo_chain ?st = Inr st'
          \<and> net st' = [] \<and> files st' = [''./rpcs/1.json'' \<mapsto> old_file] \<and> written st' = 0
          \<and> skipped st' = 1
          \<and> map_of (merged st') ''1''
              = Some (Existing (JObj [(''name'', JStr ''Old''), (''chainId'', JNum 1),
                                      (''rpcs'', JArr [])]))"
    by (intro exI [of _ st']) (simp add: init_run_def)
  with skip id(1) path parse show ?thesis by (intro conjI)
qed

lemma results_loop_error:
  "results_loop urls outs idx rpcs st = Inl (err, st') \<Longrightarrow>
   err = TypeError ''Cannot read properties of undefined (reading length)''
   \<and> files st' = files st \<and> merged st' = merged st \<and> net st' = net st
   \<and> written st' = written st"
proof (induction "length urls - idx" arbitrary: idx rpcs st)
  case 0
  then show ?case by (simp add: results_loop_done)
next
  case (Suc n)
  then have lt: "idx < length urls" and n: "n = length urls - Suc idx" by simp_all
  show ?case
  proof (cases "urls ! idx")
    case None
    with lt Suc.prems show ?thesis by (auto simp: results_loop_step_throw)
  next
    case (Some u)
    show ?thesis
    proof (cases "\<exists>r. at_index outs idx = Some (Some r)")
      case True
      then obtain r where r: "at_index outs idx = Some (Some r)" ..
      from Suc.prems have "results_loop urls outs (Suc idx) (rpcs @ [r])
         (st\<lparr> totalRpcChecked := totalRpcChecked st + 1,
              totalWorking := totalWorking st + 1 \<rparr>) = Inl (err, st')"
        by (simp add: results_loop_step_present [OF lt Some r])
      from Suc.hyps(1) [OF n this] show ?thesis by simp
    next
      case False
      then have no: "\<forall>r. at_index outs idx \<noteq> Some (Some r)" by simp
      from Suc.prems have "results_loop urls outs (Suc idx) rpcs
         (st\<lparr> totalRpcChecked := totalRpcChecked st + 1 \<rparr>) = Inl (err, st')"
        by (simp add: results_loop_step_absent [OF lt Some no])
      from Suc.hyps(1) [OF n this] show ?thesis by simp
    qed
  qed
qed

text \<open>
  A candidate that is \<open>undefined\<close> ends the run: the loop over the outcomes throws when
  it reads \<open>url.length\<close>, before the file of the chain is written.
\<close>

lemma main_chain_undefined_url:
  assumes "c_chainId ch = Some chainId" and "chainId \<noteq> IdStr []"
    and "\<not> skipExisting (parseArgs argv)
      \<or> files st (path_join rt (outDir (parseArgs argv)) (String chainId @ ''.json'')) = None"
    and "None \<in> set (getRpcs ch)"
  shows "\<exists>st'. main_chain rt (parseArgs argv) ch st
           = Inl (TypeError ''Cannot read properties of undefined (reading length)'', st')
         \<and> files st' = files st \<and> merged st' = merged st"
proof -
  let ?a = "parseArgs argv"
  let ?st0 = "st\<lparr> chainIndex := chainIndex st + 1 \<rparr>"
  from assms(4) have ne: "getRpcs ch \<noteq> []" by auto
  from assms(4) obtain i where "i < length (getRpcs ch)" "getRpcs ch ! i = None"
    by (auto simp: in_set_conv_nth)
  then have "\<exists>i \<ge> 0. i < length (getRpcs ch) \<and> getRpcs ch ! i = None" by auto
  then obtain x where "check_urls rt (batchSize ?a) (getRpcs ch) ?st0 = Inl x"
    unfolding check_urls_eq [OF batchSize_ge1]
    using results_loop_throws by blast
  moreover obtain err st' where "x = (err, st')" by (cases x)
  ultimately have x: "check_urls rt (batchSize ?a) (getRpcs ch) ?st0 = Inl (err, st')" by simp
  from results_loop_error [OF x [unfolded check_urls_eq [OF batchSize_ge1]]]
  have "err = TypeError ''Cannot read properties of undefined (reading length)''"
    and "files st' = files st" and "merged st' = merged st"
    by simp_all
  with x ne show ?thesis
    by (simp add: main_chain_fresh [OF assms(1,2,3)] Let_def)
qed

text \<open>
  When every candidate is a string, well formed or not, the loop body does not throw for
  a chain that is not skipped.
\<close>

lemma main_chain_strings:
  assumes "c_chainId ch = Some chainId" and "chainId \<noteq> IdStr []"
    and "\<not> skipExisting (parseArgs argv)
      \<or> files st (path_join rt (outDir (parseArgs argv)) (String chainId @ ''.json'')) = None"
    and "None \<notin> set (getRpcs ch)"
  shows "\<exists>st'. main_chain rt (parseArgs argv) ch st = Inr st'"
proof -
  let ?a = "parseArgs argv"
  let ?st0 = "st\<lparr> chainIndex := chainIndex st + 1 \<rparr>"
  from assms(4) have "\<not> (\<exists>i \<ge> 0. i < length (getRpcs ch) \<and> getRpcs ch ! i = None)"
    by (metis nth_mem)
  then have "\<not> (\<exists>x. check_urls rt (batchSize ?a) (getRpcs ch) ?st0 = Inl x)"
    unfolding check_urls_eq [OF batchSize_ge1]
    using results_loop_throws by blast
  then obtain y where "check_urls rt (batchSize ?a) (getRpcs ch) ?st0 = Inr y"
    by (cases "check_urls rt (batchSize ?a) (getRpcs ch) ?st0") auto
  then show ?thesis
    by (cases y) (simp add: main_chain_fresh [OF assms(1,2,3)] Let_def)
qed

text \<open>
  C8 fails on the code. For a directory whose first chain has an object entry without a
  \<open>url\<close> field, whatever the network does, \<open>main\<close> ends with the \<open>TypeError\<close> of
  \<open>url.length\<close>: no file has been written, the merged object is empty, and the second
  chain is never processed.
\<close>

theorem main_undefined_url_crashes:
  "\<exists>st. main rt [''node'', ''index.js''] [broken_chain, demo_chain] Map.empty
          = Inl (TypeError ''Cannot read properties of undefined (reading length)'', st)
        \<and> files st = Map.empty \<and> merged st = []"
proof -
  let ?a = "parseArgs [''node'', ''index.js'']"
  have id: "c_chainId broken_chain = Some (IdNum 5)" "IdNum 5 \<noteq> IdStr []"
    by (simp_all add: broken_chain_def)
  have skip: "\<not> skipExisting ?a" by code_simp
  then have fresh: "\<not> skipExisting ?a
      \<or> files (init_run Map.empty) (path_join rt (outDir ?a) (String (IdNum 5) @ ''.json''))
          = None" ..
  have undef: "None \<in> set (getRpcs broken_chain)"
    by (simp add: getRpcs_def broken_chain_def)
  from main_chain_undefined_url [OF id fresh undef]
  obtain st' where "main_chain rt ?a broken_chain (init_run Map.empty)
           = Inl (TypeError ''Cannot read properties of undefined (reading length)'', st')"
    and "files st' = files (init_run Map.empty)" and "merged st' = merged (init_run Map.empty)"
    by blast
  then show ?thesis
    by (simp add: main_def init_run_def)
qed

subsection \<open>Skip-existing over the whole run\<close>

text \<open>What one pass of the loop body does to the files and to the merged object.\<close>

lemma main_chain_effect:
  assumes "main_chain rt (parseArgs argv) ch st = Inr st'"
  shows "(files st' = files st \<and> merged st' = merged st
            \<and> (c_chainId ch = None \<or> c_chainId ch = Some (IdStr [])))
         \<or> (\<exists>chainId raw existing. c_chainId ch = Some chainId \<and> chainId \<noteq> IdStr []
              \<and> skipExisting (parseArgs argv)
              \<and> files st (path_join rt (outDir (parseArgs argv)) (String chainId @ ''.json''))
                  = Some raw
              \<and> JSON_parse rt raw = Some existing
              \<and> files st' = files st
              \<and> merged st' = AList.update (String chainId) (Existing existing) (merged st))
         \<or> (\<exists>chainId p. c_chainId ch = Some chainId \<and> chainId \<noteq> IdStr []
              \<and> (skipExisting (parseArgs argv) \<longrightarrow>
                    files st (path_join rt (outDir (parseArgs argv)) (String chainId @ ''.json''))
                      = None)
              \<and> files st' = (files st)(path_join rt (outDir (parseArgs argv))
                                          (String chainId @ ''.json'') := Some (JSON_stringify rt p))
              \<and> merged st' = AList.update (String chainId) (Built p) (merged st))"
proof (cases "c_chainId ch")
  case None
  with assms show ?thesis by (auto simp: main_chain_def Let_def)
next
  case (Some chainId)
  let ?a = "parseArgs argv"
  let ?path = "path_join rt (outDir ?a) (String chainId @ ''.json'')"
  let ?st0 = "st\<lparr> chainIndex := chainIndex st + 1 \<rparr>"
  show ?thesis
  proof (cases "chainId = IdStr []")
    case True
    with Some assms show ?thesis by (auto simp: main_chain_def Let_def)
  next
    case valid: False
    show ?thesis
    proof (cases "skipExisting ?a \<and> files st ?path \<noteq> None")
      case True
      then obtain raw where raw: "files st ?path = Some raw" by auto
      from assms have r: "reuse_existing rt chainId raw ?st0 = Inr st'"
        by (simp add: main_chain_skip [OF Some valid conjunct1 [OF True] raw])
      then obtain existing where "JSON_parse rt raw = Some existing"
        and "st' = ?st0\<lparr> merged := AList.update (String chainId) (Existing existing) (merged ?st0),
                          skipped := skipped ?st0 + 1 \<rparr>"
        by (auto simp: reuse_existing_def split: option.splits)
      with Some valid True raw show ?thesis by auto
    next
      case False
      then have fresh: "\<not> skipExisting ?a \<or> files st ?path = None" by auto
      note unfolded = main_chain_fresh [OF Some valid fresh]
      have "\<exists>p st2. st' = write_payload rt ?path p st2 \<and> p_chainId p = chainId
              \<and> files st2 = files st \<and> merged st2 = merged st"
      proof (cases "getRpcs ch = []")
        case True
        with assms unfolded have "st' = write_payload rt ?path
                 \<lparr> p_name = (case c_name ch of None \<Rightarrow> ''unknown'' | Some n \<Rightarrow> n),
                   p_chainId = chainId, p_rpcs = [] \<rparr> ?st0"
          by (simp add: Let_def)
        then show ?thesis
          by (intro exI [of _ "\<lparr> p_name = (case c_name ch of None \<Rightarrow> ''unknown'' | Some n \<Rightarrow> n),
                   p_chainId = chainId, p_rpcs = [] \<rparr>"] exI [of _ ?st0]) simp
      next
        case False
        with assms unfolded obtain rpcs st2
          where c: "check_urls rt (batchSize ?a) (getRpcs ch) ?st0 = Inr (rpcs, st2)"
            and s: "st' = write_payload rt ?path
                 \<lparr> p_name = (case c_name ch of None \<Rightarrow> ''unknown'' | Some n \<Rightarrow> n),
                   p_chainId = chainId, p_rpcs = rpcs \<rparr> st2"
          by (auto simp: Let_def split: sum.splits)
        from check_urls_result [OF batchSize_ge1 c] s show ?thesis
          by (intro exI [of _ "\<lparr> p_name = (case c_name ch of None \<Rightarrow> ''unknown'' | Some n \<Rightarrow> n),
                   p_chainId = chainId, p_rpcs = rpcs \<rparr>"] exI [of _ st2]) simp
      qed
      then obtain p st2 where "st' = write_payload rt ?path p st2" "p_chainId p = chainId"
        "files st2 = files st" "merged st2 = merged st" by blast
      then have "files st' = (files st)(?path := Some (JSON_stringify rt p))
              \<and> merged st' = AList.update (String chainId) (Built p) (merged st)"
        by (simp add: write_payload_def)
      with Some valid fresh show ?thesis by blast
    qed
  qed
qed

text \<open>
  In skip-existing mode a file that exists is never written again, and the member of the
  merged object that a skipped chain has set stays what it is.
\<close>

lemma main_chain_skip_invariant:
  assumes skip: "skipExisting (parseArgs argv)"
    and step: "main_chain rt (parseArgs argv) ch st = Inr st'"
    and exists: "files st (path_join rt (outDir (parseArgs argv)) (k @ ''.json'')) = Some raw"
  shows "files st' (path_join rt (outDir (parseArgs argv)) (k @ ''.json'')) = Some raw
         \<and> (map_of (merged st) k = Some (Existing existing) \<and> JSON_parse rt raw = Some existing
              \<longrightarrow> map_of (merged st') k = Some (Existing existing))
         \<and> ((\<exists>chainId. c_chainId ch = Some chainId \<and> chainId \<noteq> IdStr [] \<and> String chainId = k)
              \<longrightarrow> (\<exists>v. JSON_parse rt raw = Some v \<and> map_of (merged st') k = Some (Existing v)))"
  using main_chain_effect [OF step] skip exists
  by (elim disjE exE conjE) (auto simp: update_conv')

lemma main_loop_skip_invariant:
  assumes skip: "skipExisting (parseArgs argv)"
    and run: "main_loop rt (parseArgs argv) chs st = Inr st'"
    and exists: "files st (path_join rt (outDir (parseArgs argv)) (k @ ''.json'')) = Some raw"
    and "map_of (merged st) k = Some (Existing existing)" "JSON_parse rt raw = Some existing"
  shows "files st' (path_join rt (outDir (parseArgs argv)) (k @ ''.json'')) = Some raw
         \<and> map_of (merged st') k = Some (Existing existing)"
  using run exists assms(4)
proof (induction chs arbitrary: st)
  case Nil
  then show ?case by simp
next
  case (Cons ch chs)
  from Cons.prems(1) obtain st1 where 1: "main_chain rt (parseArgs argv) ch st = Inr st1"
    and 2: "main_loop rt (parseArgs argv) chs st1 = Inr st'"
    by (auto split: sum.splits)
  from main_chain_skip_invariant [OF skip 1 Cons.prems(2), of existing] Cons.prems(3) assms(5)
  have "files st1 (path_join rt (outDir (parseArgs argv)) (k @ ''.json'')) = Some raw"
    and "map_of (merged st1) k = Some (Existing existing)"
    by simp_all
  with Cons.IH [OF 2] show ?case by simp
qed

text \<open>
  The whole loop in skip-existing mode: for every chain of the list whose file exists at
  the start, the merged object at the end holds the parsed content of that file.
\<close>

lemma main_loop_skip_existing:
  assumes skip: "skipExisting (parseArgs argv)"
    and run: "main_loop rt (parseArgs argv) chs st = Inr st'"
    and mem: "ch \<in> set chs" "c_chainId ch = Some chainId" "chainId \<noteq> IdStr []"
    and exists: "files st (path_join rt (outDir (parseArgs argv)) (String chainId @ ''.json''))
                = Some raw"
  shows "\<exists>existing. JSON_parse rt raw = Some existing
           \<and> map_of (merged st') (String chainId) = Some (Existing existing)
           \<and> files st' (path_join rt (outDir (parseArgs argv)) (String chainId @ ''.json''))
               = Some raw"
  using run mem(1) exists
proof (induction chs arbitrary: st)
  case Nil
  then show ?case by simp
next
  case (Cons c chs)
  from Cons.prems(1) obtain st1 where 1: "main_chain rt (parseArgs argv) c st = Inr st1"
    and 2: "main_loop rt (parseArgs argv) chs st1 = Inr st'"
    by (auto split: sum.splits)
  note inv = main_chain_skip_invariant [OF skip 1 Cons.prems(3)]
  from inv have f1: "files st1 (path_join rt (outDir (parseArgs argv)) (String chainId @ ''.json''))
                      = Some raw"
    by simp
  show ?case
  proof (cases "c = ch")
    case True
    with inv [of undefined] mem(2,3) obtain v where v: "JSON_parse rt raw = Some v"
      "map_of (merged st1) (String chainId) = Some (Existing v)"
      by auto
    from main_loop_skip_invariant [OF skip 2 f1 v(2) v(1)] v(1) show ?thesis by auto
  next
    case False
    with Cons.prems(2) have "ch \<in> set chs" by simp
    from Cons.IH [OF 2 this f1] show ?thesis .
  qed
qed

text \<open>
  So for \<open>main\<close>: the merged object that is written to \<open>all.json\<close> holds, for such a
  chain, the parsed content of the file that existed.
\<close>

lemma main_skip_existing:
  assumes "skipExisting (parseArgs argv)"
    and "main rt argv chs fs = Inr st'"
    and "ch \<in> set chs" "c_chainId ch = Some chainId" "chainId \<noteq> IdStr []"
    and "fs (path_join rt (outDir (parseArgs argv)) (String chainId @ ''.json'')) = Some raw"
  shows "\<exists>existing. JSON_parse rt raw = Some existing
           \<and> map_of (merged st') (String chainId) = Some (Existing existing)
           \<and> files st' (path_join rt (outDir (parseArgs argv)) ''all.json'')
               = Some (JSON_stringify_merged rt (merged st'))"
proof -
  from assms(2) obtain st1 where 1: "main_loop rt (parseArgs argv) chs (init_run fs) = Inr st1"
    and 2: "st' = st1\<lparr> files := (files st1)(path_join rt (outDir (parseArgs argv)) ''all.json''
                                  := Some (JSON_stringify_merged rt (merged st1))) \<rparr>"
    by (auto simp: main_def Let_def split: sum.splits)
  from assms(6) have "files (init_run fs)
        (path_join rt (outDir (parseArgs argv)) (String chainId @ ''.json'')) = Some raw"
    by (simp add: init_run_def)
  from main_loop_skip_existing [OF assms(1) 1 assms(3,4,5) this] 2 show ?thesis
    by auto
qed

end
